theory Spec2Isabelle
  imports
    Main
    "HOL-Library.Word"
    "HOL-Library.Char_ord"
    "HOL-Library.List_Lexorder"
    "HOL-Library.AList"
begin

section \<open>A segmented write-ahead log: the model of \<^verbatim>\<open>wal.go\<close>\<close>

text \<open>
  The development embeds the package \<^verbatim>\<open>wal\<close> (file \<^verbatim>\<open>wal.go\<close>): segment naming, the
  writer (\<^verbatim>\<open>WAL\<close>), retention (\<^verbatim>\<open>TruncateBefore\<close>, \<^verbatim>\<open>CompressBefore\<close>) and the reader
  (\<^verbatim>\<open>Reader\<close>). The operating system and the Go libraries are modelled as follows.

  \<^item> The log directory is an association list from file names to file contents; only its
    map (\<open>map_of\<close>) matters. \<^verbatim>\<open>ioutil.ReadDir\<close> lists the names sorted bytewise, which is
    the order of Go strings and of \<open>string\<close> with \<open>Char_ord\<close> and \<open>List_Lexorder\<close>.
  \<^item> An open file is identified with its directory entry. Writes to an open file always
    succeed; a write through a closed file fails.
  \<^item> The wall clock is an input: every operation that may call \<^verbatim>\<open>time.Now\<close> takes the
    reading (\<^verbatim>\<open>UnixNano\<close>) as an argument.
  \<^item> The Snappy codec is a pair of parameters \<open>enc\<close> and \<open>dec\<close>.
  \<^item> Reader and writer run in turns. A call of \<^verbatim>\<open>Read\<close> that would sleep and poll forever
    on the directory as it stands has the outcome \<open>Blocked\<close>.
\<close>

unbundle bit_operations_syntax

type_synonym byte = "8 word"

subsection \<open>Segment naming\<close>

definition compressedSuffix :: string where
  "compressedSuffix = ''.snappy''"

definition digit :: "nat \<Rightarrow> char" where
  "digit d = ''0123456789'' ! d"

text \<open>The decimal digits of a natural number, most significant first (\<^verbatim>\<open>%d\<close>).\<close>

fun decimal :: "nat \<Rightarrow> string" where
  "decimal n = (if n < 10 then [digit n] else decimal (n div 10) @ [digit (n mod 10)])"

declare decimal.simps [simp del]

definition zeroPad :: "nat \<Rightarrow> string \<Rightarrow> string" where
  "zeroPad w s = replicate (w - length s) (CHR ''0'') @ s"

text \<open>
  \<^verbatim>\<open>fmt.Sprintf("%019d", seq)\<close>: at least 19 characters, the sign first and the zeros
  after it.
\<close>

definition sequenceToFilename :: "int \<Rightarrow> string" where
  "sequenceToFilename seq =
     (if seq < 0 then CHR ''-'' # zeroPad 18 (decimal (nat (- seq)))
      else zeroPad 19 (decimal (nat seq)))"

definition HasSuffix :: "string \<Rightarrow> string \<Rightarrow> bool" where
  "HasSuffix s suf \<longleftrightarrow> length suf \<le> length s \<and> drop (length s - length suf) s = suf"

definition TrimSuffix :: "string \<Rightarrow> string \<Rightarrow> string" where
  "TrimSuffix s suf = (if HasSuffix s suf then take (length s - length suf) s else s)"

text \<open>The second component of \<^verbatim>\<open>filepath.Split\<close>: what follows the last separator.\<close>

definition filePart :: "string \<Rightarrow> string" where
  "filePart s = rev (takeWhile (\<lambda>c. c \<noteq> CHR ''/'') (rev s))"

definition digitVal :: "char \<Rightarrow> nat option" where
  "digitVal c = (if CHR ''0'' \<le> c \<and> c \<le> CHR ''9'' then Some (of_char c - 48) else None)"

fun parseUint :: "string \<Rightarrow> nat \<Rightarrow> nat option" where
  "parseUint [] acc = Some acc"
| "parseUint (c # cs) acc =
     (case digitVal c of None \<Rightarrow> None | Some d \<Rightarrow> parseUint cs (10 * acc + d))"

text \<open>
  \<^verbatim>\<open>strconv.ParseInt(s, 10, 64)\<close>: an optional sign, then decimal digits only; \<open>None\<close> is a
  syntax or range error.
\<close>

definition ParseInt :: "string \<Rightarrow> int option" where
  "ParseInt s =
     (if s = [] then None
      else
        let neg = (hd s = CHR ''-'');
            s' = (if hd s = CHR ''+'' \<or> hd s = CHR ''-'' then tl s else s)
        in if s' = [] then None
           else (case parseUint s' 0 of
                   None \<Rightarrow> None
                 | Some un \<Rightarrow>
                     if \<not> neg \<and> 2 ^ 63 \<le> un then None
                     else if neg \<and> 2 ^ 63 < un then None
                     else Some (if neg then - int un else int un)))"

definition filenameToSequence :: "string \<Rightarrow> int" where
  "filenameToSequence filename =
     (case ParseInt (TrimSuffix (filePart filename) compressedSuffix) of
        None \<Rightarrow> 0
      | Some seq \<Rightarrow> seq)"

text \<open>Go's integer division truncates towards zero.\<close>

definition quot :: "int \<Rightarrow> int \<Rightarrow> int" where
  "quot a b = sgn a * sgn b * (\<bar>a\<bar> div \<bar>b\<bar>)"

definition tsToFileSequence :: "int \<Rightarrow> int" where
  "tsToFileSequence unixNano = quot unixNano 1000"

text \<open>\<^verbatim>\<open>newFileSequence\<close> reads the clock; the reading is the argument.\<close>

definition newFileSequence :: "int \<Rightarrow> int" where
  "newFileSequence now = tsToFileSequence now"

text \<open>
  Modelled from the spec: the type \<^verbatim>\<open>Offset\<close> and its constructor \<^verbatim>\<open>newOffset\<close> are not in
  \<^verbatim>\<open>wal.go\<close>. The spec describes an offset as an immutable pair of a segment sequence and
  a byte position with the accessors \<^verbatim>\<open>FileSequence()\<close> and \<^verbatim>\<open>Position()\<close>.
\<close>

record Offset =
  FileSequence :: int
  Position :: int

definition newOffset :: "int \<Rightarrow> int \<Rightarrow> Offset" where
  "newOffset seq pos = \<lparr>FileSequence = seq, Position = pos\<rparr>"

text \<open>The fixed-width form of a name, used to reason about the order of names.\<close>

fun zdig :: "nat \<Rightarrow> nat \<Rightarrow> string" where
  "zdig 0 n = []"
| "zdig (Suc w) n = zdig w (n div 10) @ [digit (n mod 10)]"


subsection \<open>Errors, the directory and files\<close>

datatype error =
  ErrNotExist
| ErrClosed
| ErrInvalid
| EOF
| ErrCodec string
| Errorf string error

datatype flags = O_RDONLY | O_CREATE_APPEND_WRONLY

text \<open>A \<^verbatim>\<open>*os.File\<close>: \<open>Nil\<close>, or a file of the directory that is open or has been closed.\<close>

datatype handle = Nil | Opened string | Closed string

type_synonym dir = "(string \<times> byte list) list"

definition ReadDir :: "dir \<Rightarrow> string list" where
  "ReadDir fs = sort (remdups (map fst fs))"

definition os_OpenFile :: "dir \<Rightarrow> string \<Rightarrow> flags \<Rightarrow> (error + handle) \<times> dir" where
  "os_OpenFile fs name fl =
     (case map_of fs name of
        Some c \<Rightarrow> (Inr (Opened name), fs)
      | None \<Rightarrow>
          if fl = O_CREATE_APPEND_WRONLY then (Inr (Opened name), fs @ [(name, [])])
          else (Inl ErrNotExist, fs))"

definition os_Remove :: "dir \<Rightarrow> string \<Rightarrow> error option \<times> dir" where
  "os_Remove fs name =
     (case map_of fs name of
        None \<Rightarrow> (Some ErrNotExist, fs)
      | Some c \<Rightarrow> (None, AList.delete name fs))"

definition file_Close :: "handle \<Rightarrow> error option \<times> handle" where
  "file_Close h =
     (case h of
        Opened name \<Rightarrow> (None, Closed name)
      | Closed name \<Rightarrow> (Some ErrClosed, Closed name)
      | Nil \<Rightarrow> (Some ErrInvalid, Nil))"

text \<open>
  A write through a handle opened with \<^verbatim>\<open>O_APPEND\<close>. Bytes written to a file that has
  lost its directory entry are not visible in the directory.
\<close>

definition file_Write :: "dir \<Rightarrow> handle \<Rightarrow> byte list \<Rightarrow> error option \<times> dir" where
  "file_Write fs h p =
     (case h of
        Opened name \<Rightarrow>
          (case map_of fs name of
             Some c \<Rightarrow> (None, AList.update name (c @ p) fs)
           | None \<Rightarrow> (None, fs))
      | Closed name \<Rightarrow> (Some ErrClosed, fs)
      | Nil \<Rightarrow> (Some ErrInvalid, fs))"

definition file_Sync :: "handle \<Rightarrow> error option" where
  "file_Sync h =
     (case h of Opened name \<Rightarrow> None | Closed name \<Rightarrow> Some ErrClosed | Nil \<Rightarrow> Some ErrInvalid)"

subsection \<open>The buffered writer of the Go library\<close>

definition defaultFileBuffer :: nat where
  "defaultFileBuffer = 65536"

record bufio_Writer =
  wr :: handle
  buf :: "byte list"
  werr :: "error option"

definition NewWriterSize :: "handle \<Rightarrow> bufio_Writer" where
  "NewWriterSize h = \<lparr>wr = h, buf = [], werr = None\<rparr>"

definition Flush :: "dir \<Rightarrow> bufio_Writer \<Rightarrow> error option \<times> dir \<times> bufio_Writer" where
  "Flush fs b =
     (if werr b \<noteq> None then (werr b, fs, b)
      else if buf b = [] then (None, fs, b)
      else (case file_Write fs (wr b) (buf b) of
              (Some e, fs') \<Rightarrow> (Some e, fs', b\<lparr>werr := Some e\<rparr>)
            | (None, fs') \<Rightarrow> (None, fs', b\<lparr>buf := []\<rparr>)))"

text \<open>
  \<^verbatim>\<open>bufio.Writer.Write\<close>: while the data does not fit into the free part of the buffer,
  write it through (empty buffer) or fill the buffer and flush it; buffer the rest.
  The last argument is the count of bytes accepted so far.
\<close>

function bufio_Write ::
  "dir \<Rightarrow> bufio_Writer \<Rightarrow> byte list \<Rightarrow> nat \<Rightarrow> (nat \<times> error option) \<times> dir \<times> bufio_Writer"
where
  "bufio_Write fs b p nn =
     (if defaultFileBuffer - length (buf b) < length p \<and> werr b = None then
        (if buf b = [] then
           (case file_Write fs (wr b) p of
              (Some e, fs') \<Rightarrow> bufio_Write fs' (b\<lparr>werr := Some e\<rparr>) p nn
            | (None, fs') \<Rightarrow> bufio_Write fs' b [] (nn + length p))
         else
           (let n = defaultFileBuffer - length (buf b) in
            case Flush fs (b\<lparr>buf := buf b @ take n p\<rparr>) of
              (e, fs', b') \<Rightarrow> bufio_Write fs' b' (drop n p) (nn + n)))
      else if werr b \<noteq> None then ((nn, werr b), fs, b)
      else ((nn + length p, None), fs, b\<lparr>buf := buf b @ p\<rparr>))"
  by pat_completeness auto
termination
  by (relation "measure (\<lambda>(fs, b, p, nn).
        if werr b \<noteq> None \<or> length p \<le> defaultFileBuffer - length (buf b) then 0
        else if buf b = [] then 1 else 2)")
     (auto simp: Flush_def defaultFileBuffer_def split: if_splits prod.splits option.splits)

declare bufio_Write.simps [simp del]

subsection \<open>The frame format\<close>

definition sentinel :: nat where
  "sentinel = 0"

definition sentinelBytes :: "byte list" where
  "sentinelBytes = [0, 0, 0, 0]"

text \<open>\<^verbatim>\<open>binary.BigEndian\<close>.\<close>

definition PutUint32 :: "32 word \<Rightarrow> byte list" where
  "PutUint32 v = [ucast (drop_bit 24 v), ucast (drop_bit 16 v), ucast (drop_bit 8 v), ucast v]"

definition Uint32 :: "byte list \<Rightarrow> 32 word" where
  "Uint32 b =
     ucast (b ! 3) OR push_bit 8 (ucast (b ! 2)) OR push_bit 16 (ucast (b ! 1))
       OR push_bit 24 (ucast (b ! 0))"

subsection \<open>The shared file state\<close>

text \<open>The field \<^verbatim>\<open>file\<close> of the source is \<open>fileHandle\<close> here; \<^verbatim>\<open>dir\<close> is the one directory.\<close>

record filebased =
  fileHandle :: handle
  compressed :: bool
  fileSequence :: int
  position :: int
  fileFlags :: flags

definition filename :: "'a filebased_scheme \<Rightarrow> string" where
  "filename fb = sequenceToFilename (fileSequence fb)"

text \<open>
  \<^verbatim>\<open>openFile\<close> closes the file that is open (an error there is only logged), opens the
  segment of the current sequence and falls back to its compressed twin when the
  segment does not exist.
\<close>

definition openFile ::
  "dir \<Rightarrow> 'a filebased_scheme \<Rightarrow> error option \<times> dir \<times> 'a filebased_scheme"
where
  "openFile fs fb =
     (case os_OpenFile fs (filename fb) (fileFlags fb) of
        (Inr h, fs1) \<Rightarrow> (None, fs1, fb\<lparr>compressed := False, fileHandle := h\<rparr>)
      | (Inl e, fs1) \<Rightarrow>
          if e = ErrNotExist then
            (case os_OpenFile fs1 (filename fb @ compressedSuffix) (fileFlags fb) of
               (Inr h, fs2) \<Rightarrow> (None, fs2, fb\<lparr>compressed := True, fileHandle := h\<rparr>)
             | (Inl e2, fs2) \<Rightarrow> (Some e2, fs2, fb\<lparr>compressed := True, fileHandle := Nil\<rparr>))
          else (Some e, fs1, fb\<lparr>compressed := False, fileHandle := Nil\<rparr>))"

subsection \<open>The writer\<close>

record WAL = filebased +
  syncImmediate :: bool
  writer :: bufio_Writer

definition defaultMaxSegmentSize :: int where
  "defaultMaxSegmentSize = 104857600"

text \<open>
  \<^verbatim>\<open>appendSentinels\<close>: every file without the compressed suffix gets four zero bytes.
  The deferred flushes run when the function returns.
\<close>

definition appendSentinels :: "dir \<Rightarrow> error option \<times> dir" where
  "appendSentinels fs =
     (None,
      fold (\<lambda>name fs'.
              if HasSuffix name compressedSuffix then fs'
              else snd (file_Write fs' (Opened name) sentinelBytes))
           (ReadDir fs) fs)"

definition WAL_advance :: "int \<Rightarrow> dir \<Rightarrow> WAL \<Rightarrow> error option \<times> dir \<times> WAL" where
  "WAL_advance now fs wal =
     (case openFile fs (wal\<lparr>fileSequence := newFileSequence now, position := 0\<rparr>) of
        (None, fs1, wal1) \<Rightarrow> (None, fs1, wal1\<lparr>writer := NewWriterSize (fileHandle wal1)\<rparr>)
      | (Some e, fs1, wal1) \<Rightarrow>
          (Some e, fs1, wal1\<lparr>writer := (writer wal1)\<lparr>wr := snd (file_Close (wr (writer wal1)))\<rparr>\<rparr>))"


definition doSync :: "dir \<Rightarrow> WAL \<Rightarrow> dir \<times> WAL" where
  "doSync fs wal =
     (case Flush fs (writer wal) of (e, fs1, w1) \<Rightarrow> (fs1, wal\<lparr>writer := w1\<rparr>))"

text \<open>The loop \<^verbatim>\<open>for _, b := range bufs\<close> of \<^verbatim>\<open>Write\<close>; \<open>n\<close> is the last count.\<close>

fun write_bufs ::
  "dir \<Rightarrow> WAL \<Rightarrow> byte list list \<Rightarrow> nat \<Rightarrow> (nat \<times> error option) \<times> dir \<times> WAL"
where
  "write_bufs fs wal [] n = ((n, None), fs, wal)"
| "write_bufs fs wal (b # bs) n =
     (case bufio_Write fs (writer wal) b 0 of
        ((n', Some e), fs1, w1) \<Rightarrow> ((0, Some e), fs1, wal\<lparr>writer := w1\<rparr>)
      | ((n', None), fs1, w1) \<Rightarrow>
          write_bufs fs1 (wal\<lparr>writer := w1, position := position wal + int n'\<rparr>) bs n')"

text \<open>
  \<^verbatim>\<open>Write\<close>. The first argument is the package variable \<^verbatim>\<open>maxSegmentSize\<close>, the second
  the clock reading used if the segment rolls over.
\<close>

definition Write ::
  "int \<Rightarrow> int \<Rightarrow> byte list list \<Rightarrow> dir \<Rightarrow> WAL \<Rightarrow> (nat \<times> error option) \<times> dir \<times> WAL"
where
  "Write maxSegmentSize now bufs fs wal =
     (let len = sum_list (map length bufs) in
      if len = 0 then ((0, None), fs, wal)
      else
        (case bufio_Write fs (writer wal) (PutUint32 (of_nat len)) 0 of
           ((n, Some e), fs1, w1) \<Rightarrow>
             ((0, Some e), fs1, wal\<lparr>writer := w1, position := position wal + int n\<rparr>)
         | ((n, None), fs1, w1) \<Rightarrow>
             (case write_bufs fs1 (wal\<lparr>writer := w1, position := position wal + int n\<rparr>) bufs n of
                ((n, Some e), fs2, wal2) \<Rightarrow> ((0, Some e), fs2, wal2)
              | ((n, None), fs2, wal2) \<Rightarrow>
                  (case (if syncImmediate wal2 then doSync fs2 wal2 else (fs2, wal2)) of
                     (fs3, wal3) \<Rightarrow>
                       if maxSegmentSize \<le> position wal3 then
                         (case bufio_Write fs3 (writer wal3) sentinelBytes 0 of
                            ((m, Some e), fs4, w4) \<Rightarrow> ((0, Some e), fs4, wal3\<lparr>writer := w4\<rparr>)
                          | ((m, None), fs4, w4) \<Rightarrow>
                              (case Flush fs4 w4 of
                                 (Some e, fs5, w5) \<Rightarrow> ((0, Some e), fs5, wal3\<lparr>writer := w5\<rparr>)
                               | (None, fs5, w5) \<Rightarrow>
                                   (case WAL_advance now fs5 (wal3\<lparr>writer := w5\<rparr>) of
                                      (Some e, fs6, wal6) \<Rightarrow>
                                        ((n, Some (Errorf ''Unable to advance to next file'' e)),
                                         fs6, wal6)
                                    | (None, fs6, wal6) \<Rightarrow> ((n, None), fs6, wal6))))
                       else ((n, None), fs3, wal3)))))"

text \<open>The loop of \<^verbatim>\<open>TruncateBefore\<close> over the sorted listing; the last file ends it.\<close>

fun truncate_loop :: "string \<Rightarrow> string list \<Rightarrow> dir \<Rightarrow> error option \<times> dir" where
  "truncate_loop cutoff [] fs = (None, fs)"
| "truncate_loop cutoff [f] fs = (None, fs)"
| "truncate_loop cutoff (f # g # rest) fs =
     (if cutoff \<le> f then (None, fs)
      else (case os_Remove fs f of
              (Some e, fs') \<Rightarrow> (Some e, fs')
            | (None, fs') \<Rightarrow> truncate_loop cutoff (g # rest) fs'))"

definition TruncateBefore :: "Offset \<Rightarrow> dir \<Rightarrow> error option \<times> dir" where
  "TruncateBefore o' fs = truncate_loop (sequenceToFilename (FileSequence o')) (ReadDir fs) fs"

definition TruncateBeforeTime :: "int \<Rightarrow> dir \<Rightarrow> error option \<times> dir" where
  "TruncateBeforeTime ts fs = TruncateBefore (newOffset (tsToFileSequence ts) 0) fs"

text \<open>
  The loop of \<^verbatim>\<open>CompressBefore\<close>. \<open>enc\<close> is what \<^verbatim>\<open>snappy.NewWriter\<close> emits for the whole
  input; the output file is opened with \<^verbatim>\<open>O_CREATE|O_APPEND\<close>.
\<close>

fun compress_loop ::
  "(byte list \<Rightarrow> byte list) \<Rightarrow> string \<Rightarrow> string list \<Rightarrow> dir \<Rightarrow> error option \<times> dir"
where
  "compress_loop enc cutoff [] fs = (None, fs)"
| "compress_loop enc cutoff [f] fs = (None, fs)"
| "compress_loop enc cutoff (f # g # rest) fs =
     (if cutoff \<le> f then (None, fs)
      else if HasSuffix f compressedSuffix then compress_loop enc cutoff (g # rest) fs
      else
        (case map_of fs f of
           None \<Rightarrow> (Some (Errorf ''Unable to open input file for compression'' ErrNotExist), fs)
         | Some c \<Rightarrow>
             (case os_OpenFile fs (f @ compressedSuffix) O_CREATE_APPEND_WRONLY of
                (Inl e, fs1) \<Rightarrow> (Some (Errorf ''Unable to open outputfile'' e), fs1)
              | (Inr out, fs1) \<Rightarrow>
                  (case file_Write fs1 out (enc c) of
                     (Some e, fs2) \<Rightarrow> (Some (Errorf ''Unable to compress'' e), fs2)
                   | (None, fs2) \<Rightarrow>
                       (case os_Remove fs2 f of
                          (Some e, fs3) \<Rightarrow>
                            (Some (Errorf ''Unable to remove uncompressed file'' e), fs3)
                        | (None, fs3) \<Rightarrow> compress_loop enc cutoff (g # rest) fs3)))))"

definition CompressBefore ::
  "(byte list \<Rightarrow> byte list) \<Rightarrow> Offset \<Rightarrow> dir \<Rightarrow> error option \<times> dir"
where
  "CompressBefore enc o' fs =
     compress_loop enc (sequenceToFilename (FileSequence o')) (ReadDir fs) fs"

definition CompressBeforeTime ::
  "(byte list \<Rightarrow> byte list) \<Rightarrow> int \<Rightarrow> dir \<Rightarrow> error option \<times> dir"
where
  "CompressBeforeTime enc ts fs = CompressBefore enc (newOffset (tsToFileSequence ts) 0) fs"

text \<open>\<^verbatim>\<open>Close\<close>: flush, sync, close; the first error in that order is returned.\<close>

definition Close :: "dir \<Rightarrow> WAL \<Rightarrow> error option \<times> dir \<times> WAL" where
  "Close fs wal =
     (case Flush fs (writer wal) of
        (flushErr, fs1, w1) \<Rightarrow>
          (let syncErr = file_Sync (fileHandle wal);
               (closeErr, h) = file_Close (fileHandle wal);
               wal1 = wal\<lparr>fileHandle := h, writer := w1\<lparr>wr := h\<rparr>\<rparr>
           in (if flushErr \<noteq> None then flushErr
               else if syncErr \<noteq> None then syncErr
               else closeErr, fs1, wal1)))"

definition hasMovedBeyond :: "WAL \<Rightarrow> int \<Rightarrow> bool" where
  "hasMovedBeyond wal seq \<longleftrightarrow> seq < fileSequence wal"


subsection \<open>The reader\<close>

text \<open>
  What a Snappy reader delivers for the bytes of a file: the decoded bytes and, after
  them, end of stream (\<open>None\<close>) or an error.
\<close>

type_synonym decoder = "byte list \<Rightarrow> byte list \<times> error option"

text \<open>
  The field \<^verbatim>\<open>reader\<close>: a buffered reader over a file, wrapped in a Snappy reader for a
  compressed segment. \<open>cursor\<close> counts the logical bytes taken from it.
\<close>

record stream =
  src :: handle
  snappy :: bool
  cursor :: nat

record Reader = filebased +
  reader :: stream

datatype 'a outcome = Returned 'a | Failed error | Blocked

definition stream_data :: "decoder \<Rightarrow> dir \<Rightarrow> stream \<Rightarrow> byte list \<times> error option" where
  "stream_data dec fs s =
     (case src s of
        Opened name \<Rightarrow>
          (case map_of fs name of
             None \<Rightarrow> ([], None)
           | Some c \<Rightarrow> if snappy s then dec c else (c, None))
      | Closed name \<Rightarrow> ([], Some ErrClosed)
      | Nil \<Rightarrow> ([], Some ErrInvalid))"

text \<open>
  The loops of \<^verbatim>\<open>Read\<close> that fill a buffer of \<open>k\<close> bytes call \<^verbatim>\<open>r.reader.Read\<close> until the
  buffer is full. A call delivers bytes while the stream has some, so on a directory that
  stands still the loop fills the buffer, or takes what is there and then meets the end
  of the stream with no byte read (it sleeps and retries for ever: \<open>Starved\<close>) or
  another error (\<open>Broken\<close>). The position grows by every byte taken.
\<close>

datatype fill = Full "byte list" | Starved | Broken error

definition fillBuf :: "decoder \<Rightarrow> dir \<Rightarrow> Reader \<Rightarrow> nat \<Rightarrow> fill \<times> Reader" where
  "fillBuf dec fs r k =
     (case stream_data dec fs (reader r) of
        (d, e) \<Rightarrow>
          let av = drop (cursor (reader r)) d;
              n = min k (length av);
              r' = r\<lparr>reader := (reader r)\<lparr>cursor := cursor (reader r) + n\<rparr>,
                     position := position r + int n\<rparr>
          in if k \<le> length av then (Full (take k av), r')
             else if e = None \<or> e = Some EOF then (Starved, r')
             else (Broken (the e), r'))"

text \<open>\<^verbatim>\<open>io.CopyN(ioutil.Discard, r.reader, n)\<close> for \<open>0 < n\<close>.\<close>

definition CopyN_Discard :: "decoder \<Rightarrow> dir \<Rightarrow> stream \<Rightarrow> int \<Rightarrow> error option \<times> stream" where
  "CopyN_Discard dec fs s n =
     (case stream_data dec fs s of
        (d, e) \<Rightarrow>
          let av = drop (cursor s) d
          in if nat n \<le> length av then (None, s\<lparr>cursor := cursor s + nat n\<rparr>)
             else (Some (case e of None \<Rightarrow> EOF | Some x \<Rightarrow> x),
                   s\<lparr>cursor := cursor s + length av\<rparr>))"

definition Reader_open :: "decoder \<Rightarrow> dir \<Rightarrow> Reader \<Rightarrow> error option \<times> Reader" where
  "Reader_open dec fs r =
     (case openFile fs r of
        (Some e, fs', r1) \<Rightarrow>
          (Some e, r1\<lparr>reader := (reader r1)\<lparr>src := snd (file_Close (src (reader r1)))\<rparr>\<rparr>)
      | (None, fs', r1) \<Rightarrow>
          (let r2 = r1\<lparr>reader := \<lparr>src = fileHandle r1, snappy = compressed r1, cursor = 0\<rparr>\<rparr>
           in if 0 < position r2 then
                (case CopyN_Discard dec fs (reader r2) (position r2) of
                   (Some seekErr, s) \<Rightarrow> (Some seekErr, r2\<lparr>reader := s\<rparr>)
                 | (None, s) \<Rightarrow> (None, r2\<lparr>reader := s\<rparr>))
              else (None, r2)))"

text \<open>
  \<^verbatim>\<open>Reader.advance\<close> polls the directory until it lists a file of another sequence whose
  name is above the name of the current sequence.
\<close>

definition Reader_advance :: "decoder \<Rightarrow> dir \<Rightarrow> Reader \<Rightarrow> unit outcome \<times> Reader" where
  "Reader_advance dec fs r =
     (case find (\<lambda>name. filenameToSequence name \<noteq> fileSequence r
                        \<and> sequenceToFilename (fileSequence r) < name) (ReadDir fs) of
        None \<Rightarrow> (Blocked, r)
      | Some name \<Rightarrow>
          (case Reader_open dec fs (r\<lparr>position := 0, fileSequence := filenameToSequence name\<rparr>) of
             (Some e, r') \<Rightarrow> (Failed e, r')
           | (None, r') \<Rightarrow> (Returned (), r')))"

text \<open>The part of \<^verbatim>\<open>NewReader\<close> that is guarded by \<^verbatim>\<open>offset != nil\<close>.\<close>

definition NewReader_seek :: "decoder \<Rightarrow> dir \<Rightarrow> Reader \<Rightarrow> Offset \<Rightarrow> error + Reader" where
  "NewReader_seek dec fs r offset0 =
     (let offset =
            (if hd (sequenceToFilename (FileSequence offset0)) \<noteq> CHR ''0''
             then newOffset (quot (FileSequence offset0) 1000) (Position offset0)
             else offset0);
          cutoff = sequenceToFilename (FileSequence offset)
      in case find (\<lambda>name. cutoff \<le> name) (ReadDir fs) of
           None \<Rightarrow> Inr r
         | Some name \<Rightarrow>
             (let seq = filenameToSequence name;
                  r1 = r\<lparr>fileSequence := seq,
                         position := (if seq = FileSequence offset then Position offset else 0)\<rparr>
              in case Reader_open dec fs r1 of
                   (Some openErr, r2) \<Rightarrow> Inl (Errorf ''Unable to open existing log file'' openErr)
                 | (None, r2) \<Rightarrow> Inr r2))"

definition NewReader :: "decoder \<Rightarrow> dir \<Rightarrow> Offset option \<Rightarrow> Reader outcome" where
  "NewReader dec fs offset =
     (let r = \<lparr>fileHandle = Nil, compressed = False, fileSequence = 0, position = 0,
               fileFlags = O_RDONLY, reader = \<lparr>src = Nil, snappy = False, cursor = 0\<rparr>\<rparr>
      in case (case offset of None \<Rightarrow> Inr r | Some off \<Rightarrow> NewReader_seek dec fs r off) of
           Inl e \<Rightarrow> Failed e
         | Inr r1 \<Rightarrow>
             if fileHandle r1 = Nil then
               (case Reader_advance dec fs r1 of
                  (Failed e, r2) \<Rightarrow> Failed (Errorf ''Unable to advance initially'' e)
                | (Blocked, r2) \<Rightarrow> Blocked
                | (Returned u, r2) \<Rightarrow> Returned r2)
             else Returned r1)"

text \<open>
  \<^verbatim>\<open>err := r.advance(); if err != nil { return nil, err }\<close> and on to the next round: the
  result of the call, or the reader the next round starts with.
\<close>

fun after_advance :: "unit outcome \<times> Reader \<Rightarrow> (byte list outcome \<times> Reader) + Reader" where
  "after_advance (Failed err, r) = Inl (Failed err, r)"
| "after_advance (Blocked, r) = Inl (Blocked, r)"
| "after_advance (Returned u, r) = Inr r"

text \<open>
  One round of the loops of \<^verbatim>\<open>Read\<close>: read the length; a length of zero (also after an
  error, when no length was read) advances; otherwise read the payload, and at the end
  of the stream ask \<^verbatim>\<open>hasMovedBeyond\<close>. The writer is consulted for that only. A length
  is read as a non-negative \<^verbatim>\<open>int\<close> (64-bit platform).
\<close>

definition Read_round ::
  "decoder \<Rightarrow> dir \<Rightarrow> WAL \<Rightarrow> Reader \<Rightarrow> (byte list outcome \<times> Reader) + Reader"
where
  "Read_round dec fs wal r =
     (case fillBuf dec fs r 4 of
        (Starved, r1) \<Rightarrow> Inl (Blocked, r1)
      | (Broken e, r1) \<Rightarrow> after_advance (Reader_advance dec fs r1)
      | (Full lenBuf, r1) \<Rightarrow>
          (let len = unat (Uint32 lenBuf)
           in if sentinel < len then
                (case fillBuf dec fs r1 len of
                   (Full b, r2) \<Rightarrow> Inl (Returned b, r2)
                 | (Starved, r2) \<Rightarrow>
                     if hasMovedBeyond wal (fileSequence r2)
                     then after_advance (Reader_advance dec fs r2)
                     else Inl (Blocked, r2)
                 | (Broken e, r2) \<Rightarrow> Inr r2)
              else after_advance (Reader_advance dec fs r1)))"

text \<open>
  \<^verbatim>\<open>Read\<close>: rounds until one gives the result. Each round costs one unit of fuel; \<open>None\<close>
  is the end of the fuel.
\<close>

fun Read ::
  "nat \<Rightarrow> decoder \<Rightarrow> dir \<Rightarrow> WAL \<Rightarrow> Reader \<Rightarrow> (byte list outcome \<times> Reader) option"
where
  "Read 0 dec fs wal r = None"
| "Read (Suc fuel) dec fs wal r =
     (case Read_round dec fs wal r of
        Inl res \<Rightarrow> Some res
      | Inr r1 \<Rightarrow> Read fuel dec fs wal r1)"

definition Reader_Offset :: "Reader \<Rightarrow> Offset" where
  "Reader_Offset r = newOffset (fileSequence r) (position r)"

definition Reader_Close :: "Reader \<Rightarrow> error option \<times> Reader" where
  "Reader_Close r =
     (case file_Close (fileHandle r) of
        (e, h) \<Rightarrow> (e, r\<lparr>fileHandle := h, reader := (reader r)\<lparr>src := h\<rparr>\<rparr>))"

text \<open>\<open>n\<close> calls of \<^verbatim>\<open>Read\<close> in a row that all return a record.\<close>

fun ReadN ::
  "nat \<Rightarrow> nat \<Rightarrow> decoder \<Rightarrow> dir \<Rightarrow> WAL \<Rightarrow> Reader \<Rightarrow> (byte list list \<times> Reader) option"
where
  "ReadN 0 fuel dec fs wal r = Some ([], r)"
| "ReadN (Suc n) fuel dec fs wal r =
     (case Read fuel dec fs wal r of
        Some (Returned b, r1) \<Rightarrow>
          (case ReadN n fuel dec fs wal r1 of
             Some (bs, r2) \<Rightarrow> Some (b # bs, r2)
           | None \<Rightarrow> None)
      | _ \<Rightarrow> None)"

text \<open>A sequence of calls of \<^verbatim>\<open>Write\<close>, each with its clock reading.\<close>

fun WriteAll ::
  "int \<Rightarrow> (int \<times> byte list list) list \<Rightarrow> dir \<Rightarrow> WAL \<Rightarrow> error option \<times> dir \<times> WAL"
where
  "WriteAll maxSegmentSize [] fs wal = (None, fs, wal)"
| "WriteAll maxSegmentSize ((now, bufs) # ws) fs wal =
     (case Write maxSegmentSize now bufs fs wal of
        ((n, Some e), fs1, wal1) \<Rightarrow> (Some e, fs1, wal1)
      | ((n, None), fs1, wal1) \<Rightarrow> WriteAll maxSegmentSize ws fs1 wal1)"

text \<open>
  The names the writer and \<^verbatim>\<open>CompressBefore\<close> give to files: the name of a sequence from
  0 to \<open>2 ^ 63 - 1\<close>, with or without the compressed suffix.
\<close>

definition canonical :: "string \<Rightarrow> bool" where
  "canonical name \<longleftrightarrow>
     (let s = filenameToSequence name
      in 0 \<le> s \<and> s < 2 ^ 63 \<and>
         (name = sequenceToFilename s \<or> name = sequenceToFilename s @ compressedSuffix))"

definition canonical_dir :: "dir \<Rightarrow> bool" where
  "canonical_dir fs \<longleftrightarrow> list_all canonical (ReadDir fs)"


subsection \<open>Example states\<close>

text \<open>The writer and the directory right after \<^verbatim>\<open>Open\<close> on an empty directory at 5000 ns.\<close>

definition ex_wal :: WAL where
  "ex_wal = \<lparr>fileHandle = Opened ''0000000000000000005'', compressed = False, fileSequence = 5,
     position = 0, fileFlags = O_CREATE_APPEND_WRONLY, syncImmediate = True,
     writer = \<lparr>wr = Opened ''0000000000000000005'', buf = [], werr = None\<rparr>\<rparr>"

definition ex_dir :: dir where
  "ex_dir = [(''0000000000000000005'', [])]"

text \<open>A payload of 12 bytes, and the directory after it has filled the first segment.\<close>

definition ex_payload12 :: "byte list" where
  "ex_payload12 = [1, 2, 3, 4, 5, 6, 7, 8, 9, 10, 11, 12]"

definition ex_dir_rolled :: dir where
  "ex_dir_rolled =
     [(''0000000000000000005'', [0, 0, 0, 12] @ ex_payload12 @ [0, 0, 0, 0])]"

text \<open>A decoder for the examples, which have no compressed segment, and a reader.\<close>

definition ex_dec :: decoder where
  "ex_dec c = (c, None)"

definition ex_reader :: Reader where
  "ex_reader = \<lparr>fileHandle = Opened ''0000000000000000005'', compressed = False, fileSequence = 5,
     position = 0, fileFlags = O_RDONLY,
     reader = \<lparr>src = Opened ''0000000000000000005'', snappy = False, cursor = 0\<rparr>\<rparr>"

definition ex_reader_at :: "nat \<Rightarrow> Reader" where
  "ex_reader_at n = ex_reader\<lparr>position := int n,
     reader := \<lparr>src = Opened ''0000000000000000005'', snappy = False, cursor = n\<rparr>\<rparr>"

text \<open>The lexicographic order of offsets.\<close>

definition Offset_less :: "Offset \<Rightarrow> Offset \<Rightarrow> bool" where
  "Offset_less a b \<longleftrightarrow>
     FileSequence a < FileSequence b \<or> FileSequence a = FileSequence b \<and> Position a < Position b"

definition Offset_le :: "Offset \<Rightarrow> Offset \<Rightarrow> bool" where
  "Offset_le a b \<longleftrightarrow> Offset_less a b \<or> (FileSequence a = FileSequence b \<and> Position a = Position b)"

text \<open>A directory whose first segment ends inside a record, and the writer on the second.\<close>

definition ex_dir_cut :: dir where
  "ex_dir_cut =
     [(''0000000000000000005'', [0, 0, 0, 12, 1, 2, 3]),
      (''0000000000000000009'', [0, 0, 0, 1, 7])]"

definition ex_wal9 :: WAL where
  "ex_wal9 = ex_wal\<lparr>fileHandle := Opened ''0000000000000000009'', fileSequence := 9,
     writer := \<lparr>wr = Opened ''0000000000000000009'', buf = [], werr = None\<rparr>\<rparr>"

definition ex_reader9_at :: "nat \<Rightarrow> Reader" where
  "ex_reader9_at n = \<lparr>fileHandle = Opened ''0000000000000000009'', compressed = False,
     fileSequence = 9, position = int n, fileFlags = O_RDONLY,
     reader = \<lparr>src = Opened ''0000000000000000009'', snappy = False, cursor = n\<rparr>\<rparr>"

text \<open>
  A directory with a segment named by a legacy sequence, and a directory whose segment 5
  exists in compressed form only, next to a foreign file and a segment 0.
\<close>

definition ex_dir_legacy :: dir where
  "ex_dir_legacy = [(''1000000000000000000'', [])]"

definition ex_dir_foreign :: dir where
  "ex_dir_foreign =
     [(''0000000000000000000'', []),
      (''0000000000000000005-'', []),
      (''0000000000000000005.snappy'', [1, 2, 3])]"

definition ex_reader_on :: "string \<Rightarrow> int \<Rightarrow> Reader" where
  "ex_reader_on name seq = \<lparr>fileHandle = Opened name, compressed = False, fileSequence = seq,
     position = 0, fileFlags = O_RDONLY,
     reader = \<lparr>src = Opened name, snappy = False, cursor = 0\<rparr>\<rparr>"

text \<open>
  Directories with a foreign file: a file \<^verbatim>\<open>9\<close> next to the segments 9 and 10, and a file
  \<^verbatim>\<open>0000000000000000005x\<close> next to a segment 5 that ends inside a record.
\<close>

definition ex_dir_stray9 :: dir where
  "ex_dir_stray9 =
     [(''0000000000000000009'', [0, 0, 0, 1, 7]),
      (''0000000000000000010'', [0, 0, 0, 0]),
      (''9'', [])]"



section \<open>Segment names: order and round trip\<close>

lemma length_zdig [simp]: "length (zdig w n) = w"
  by (induction w arbitrary: n) auto

lemma digit_cases: "d < 10 \<Longrightarrow> d = 0 \<or> d = 1 \<or> d = 2 \<or> d = 3 \<or> d = 4 \<or> d = 5 \<or> d = 6 \<or> d = 7 \<or> d = 8 \<or> d = (9::nat)"
  by arith

lemma of_char_digit: "d < 10 \<Longrightarrow> of_char (digit d) = 48 + d"
  using digit_cases [of d] by (auto simp: digit_def)

lemma digit_less: "a < 10 \<Longrightarrow> b < 10 \<Longrightarrow> (digit a < digit b) = (a < b)"
  by (simp add: less_char_def of_char_digit)

lemma digit_inj: "a < 10 \<Longrightarrow> b < 10 \<Longrightarrow> (digit a = digit b) = (a = b)"
  by (metis of_char_digit add_left_cancel)

lemma digitVal_digit: "d < 10 \<Longrightarrow> digitVal (digit d) = Some d"
  using digit_cases [of d] by (auto simp: digit_def digitVal_def)

lemma snoc_less_snoc:
  "length xs = length ys \<Longrightarrow> (xs @ [a] < ys @ [b]) = (xs < ys \<or> xs = ys \<and> a < (b::char))"
  by (induction xs ys rule: list_induct2) auto

lemma less_append_same_length:
  "length xs = length ys \<Longrightarrow> xs < ys \<Longrightarrow> xs @ u < ys @ (v::string)"
  by (induction xs ys rule: list_induct2) auto

lemma zdig_inj: "a < 10 ^ w \<Longrightarrow> b < 10 ^ w \<Longrightarrow> (zdig w a = zdig w b) = (a = b)"
proof (induction w arbitrary: a b)
  case 0
  then show ?case by simp
next
  case (Suc w)
  have "a div 10 < 10 ^ w" "b div 10 < 10 ^ w"
    using Suc.prems by (simp_all add: less_mult_imp_div_less mult.commute)
  then have "(zdig w (a div 10) = zdig w (b div 10)) = (a div 10 = b div 10)"
    by (rule Suc.IH)
  moreover have "(a div 10 = b div 10 \<and> a mod 10 = b mod 10) = (a = b)"
    by (metis div_mult_mod_eq)
  ultimately show ?case
    by (auto simp: digit_inj)
qed

lemma divmod_less:
  fixes qa ra qb rb :: nat
  assumes "ra < 10" "rb < 10"
  shows "(10 * qa + ra < 10 * qb + rb) = (qa < qb \<or> qa = qb \<and> ra < rb)"
  using assms by arith

lemma zdig_less: "a < 10 ^ w \<Longrightarrow> b < 10 ^ w \<Longrightarrow> (zdig w a < zdig w b) = (a < b)"
proof (induction w arbitrary: a b)
  case 0
  then show ?case by simp
next
  case (Suc w)
  have lt: "a div 10 < 10 ^ w" "b div 10 < 10 ^ w"
    using Suc.prems by (simp_all add: less_mult_imp_div_less mult.commute)
  have ih: "(zdig w (a div 10) < zdig w (b div 10)) = (a div 10 < b div 10)"
    using lt by (rule Suc.IH)
  have inj: "(zdig w (a div 10) = zdig w (b div 10)) = (a div 10 = b div 10)"
    using lt by (rule zdig_inj)
  have "(10 * (a div 10) + a mod 10 < 10 * (b div 10) + b mod 10)
      = (a div 10 < b div 10 \<or> a div 10 = b div 10 \<and> a mod 10 < b mod 10)"
    by (rule divmod_less) simp_all
  then have "(a < b) = (a div 10 < b div 10 \<or> a div 10 = b div 10 \<and> a mod 10 < b mod 10)"
    by simp
  then show ?case
    by (simp add: snoc_less_snoc ih inj digit_less)
qed

lemma zdig_zero: "zdig w 0 = replicate w (CHR ''0'')"
  by (induction w) (simp_all add: digit_def replicate_append_same)

lemma length_decimal_le: "n < 10 ^ w \<Longrightarrow> 0 < w \<Longrightarrow> length (decimal n) \<le> w"
proof (induction w arbitrary: n)
  case 0
  then show ?case by simp
next
  case (Suc w)
  show ?case
  proof (cases "n < 10")
    case True
    then show ?thesis by (simp add: decimal.simps)
  next
    case False
    then have "0 < w" using Suc.prems by (cases w) auto
    moreover have "n div 10 < 10 ^ w"
      using Suc.prems by (simp add: less_mult_imp_div_less mult.commute)
    ultimately have "length (decimal (n div 10)) \<le> w" by (rule Suc.IH[rotated])
    then show ?thesis using False by (subst decimal.simps) simp
  qed
qed

lemma zeroPad_decimal: "n < 10 ^ w \<Longrightarrow> 0 < w \<Longrightarrow> zeroPad w (decimal n) = zdig w n"
proof (induction w arbitrary: n)
  case 0
  then show ?case by simp
next
  case (Suc w)
  show ?case
  proof (cases "n < 10")
    case True
    then show ?thesis
      by (simp add: decimal.simps zeroPad_def zdig_zero)
  next
    case False
    then have w: "0 < w" using Suc.prems by (cases w) auto
    have lt: "n div 10 < 10 ^ w"
      using Suc.prems by (simp add: less_mult_imp_div_less mult.commute)
    have ih: "zeroPad w (decimal (n div 10)) = zdig w (n div 10)"
      using lt w by (rule Suc.IH)
    have len: "length (decimal (n div 10)) \<le> w"
      using lt w by (rule length_decimal_le)
    have "decimal n = decimal (n div 10) @ [digit (n mod 10)]"
      using False by (subst decimal.simps) simp
    then show ?thesis
      using ih len by (simp add: zeroPad_def Suc_diff_le)
  qed
qed

lemma sequenceToFilename_zdig:
  "0 \<le> s \<Longrightarrow> s < 10 ^ 19 \<Longrightarrow> sequenceToFilename s = zdig 19 (nat s)"
proof -
  assume a: "0 \<le> s" "s < 10 ^ 19"
  then have "nat s < 10 ^ 19" by (simp add: nat_less_iff)
  then have "zeroPad 19 (decimal (nat s)) = zdig 19 (nat s)"
    by (rule zeroPad_decimal) simp
  then show ?thesis using a by (simp only: sequenceToFilename_def not_less[symmetric] if_False)
qed


lemma zdig_digits: "c \<in> set (zdig w n) \<Longrightarrow> \<exists>d<10. c = digit d"
proof (induction w arbitrary: n)
  case 0
  then show ?case by simp
next
  case (Suc w)
  then show ?case
    by (auto intro: exI[of _ "n mod 10"])
qed

lemma digit_not_special:
  "d < 10 \<Longrightarrow> digit d \<noteq> CHR ''/'' \<and> digit d \<noteq> CHR ''-'' \<and> digit d \<noteq> CHR ''+'' \<and> digit d \<noteq> CHR ''y''"
  using digit_cases [of d] by (auto simp: digit_def)

lemma parseUint_append:
  "parseUint (xs @ ys) acc = (case parseUint xs acc of None \<Rightarrow> None | Some a \<Rightarrow> parseUint ys a)"
  by (induction xs arbitrary: acc) (auto split: option.splits)

lemma parseUint_zdig: "n < 10 ^ w \<Longrightarrow> parseUint (zdig w n) 0 = Some n"
proof (induction w arbitrary: n)
  case 0
  then show ?case by simp
next
  case (Suc w)
  have "n div 10 < 10 ^ w"
    using Suc.prems by (simp add: less_mult_imp_div_less mult.commute)
  then have "parseUint (zdig w (n div 10)) 0 = Some (n div 10)" by (rule Suc.IH)
  then show ?case
    by (simp add: parseUint_append digitVal_digit)
qed

lemma filePart_zdig: "filePart (zdig w n @ compressedSuffix) = zdig w n @ compressedSuffix"
  "filePart (zdig w n) = zdig w n"
proof -
  have "\<forall>c \<in> set (zdig w n). c \<noteq> CHR ''/''"
    by (metis zdig_digits digit_not_special)
  then have a: "\<forall>c \<in> set (rev (zdig w n @ compressedSuffix)). c \<noteq> CHR ''/''"
    and b: "\<forall>c \<in> set (rev (zdig w n)). c \<noteq> CHR ''/''"
    by (auto simp: compressedSuffix_def)
  show "filePart (zdig w n @ compressedSuffix) = zdig w n @ compressedSuffix"
    unfolding filePart_def using a by (subst takeWhile_eq_all_conv[THEN iffD2]) auto
  show "filePart (zdig w n) = zdig w n"
    unfolding filePart_def using b by (subst takeWhile_eq_all_conv[THEN iffD2]) auto
qed

lemma TrimSuffix_append: "TrimSuffix (s @ suf) suf = s"
  by (simp add: TrimSuffix_def HasSuffix_def)

lemma TrimSuffix_zdig: "0 < w \<Longrightarrow> TrimSuffix (zdig w n) compressedSuffix = zdig w n"
proof -
  assume "0 < w"
  then obtain v where w: "w = Suc v" by (cases w) auto
  have "last (zdig w n) = digit (n mod 10)" by (simp add: w)
  moreover have "last compressedSuffix = CHR ''y''" by (simp add: compressedSuffix_def)
  moreover have "digit (n mod 10) \<noteq> CHR ''y''" using digit_not_special[of "n mod 10"] by simp
  ultimately have "\<not> HasSuffix (zdig w n) compressedSuffix"
    unfolding HasSuffix_def
    by (metis last_drop length_zdig compressedSuffix_def diff_less length_greater_0_conv
        list.distinct(1) w zero_less_Suc)
  then show ?thesis by (simp add: TrimSuffix_def)
qed

lemma ParseInt_zdig: "0 < w \<Longrightarrow> n < 10 ^ w \<Longrightarrow> n < 2 ^ 63 \<Longrightarrow> ParseInt (zdig w n) = Some (int n)"
proof -
  assume w: "0 < w" and n: "n < 10 ^ w" "n < 2 ^ 63"
  have ne: "zdig w n \<noteq> []" using w by (metis length_zdig length_0_conv less_numeral_extra(3))
  then have "hd (zdig w n) \<in> set (zdig w n)" by simp
  then obtain d where "d < 10" "hd (zdig w n) = digit d" using zdig_digits by blast
  then have "hd (zdig w n) \<noteq> CHR ''-''" "hd (zdig w n) \<noteq> CHR ''+''"
    using digit_not_special by auto
  then show ?thesis
    using ne n by (simp add: ParseInt_def parseUint_zdig)
qed

lemma filenameToSequence_sequenceToFilename:
  assumes "0 \<le> s" "s < 2 ^ 63"
  shows "filenameToSequence (sequenceToFilename s) = s"
    and "filenameToSequence (sequenceToFilename s @ compressedSuffix) = s"
proof -
  have lt: "s < 10 ^ 19" using assms by simp
  have n: "nat s < 10 ^ 19" "nat s < 2 ^ 63" using assms by (simp_all add: nat_less_iff)
  have z: "sequenceToFilename s = zdig 19 (nat s)"
    using assms(1) lt by (rule sequenceToFilename_zdig)
  have p: "ParseInt (zdig 19 (nat s)) = Some (int (nat s))"
    using n by (intro ParseInt_zdig) simp_all
  show "filenameToSequence (sequenceToFilename s) = s"
    using assms(1) by (simp add: filenameToSequence_def z filePart_zdig TrimSuffix_zdig p)
  show "filenameToSequence (sequenceToFilename s @ compressedSuffix) = s"
    using assms(1) by (simp add: filenameToSequence_def z filePart_zdig TrimSuffix_append p)
qed

lemma sequenceToFilename_less:
  assumes "0 \<le> a" "a < 2 ^ 63" "0 \<le> b" "b < 2 ^ 63"
  shows "(sequenceToFilename a < sequenceToFilename b) = (a < b)"
proof -
  have "a < 10 ^ 19" "b < 10 ^ 19" using assms by simp_all
  then have z: "sequenceToFilename a = zdig 19 (nat a)" "sequenceToFilename b = zdig 19 (nat b)"
    using assms by (simp_all add: sequenceToFilename_zdig)
  have "nat a < 10 ^ 19" "nat b < 10 ^ 19" using assms by (simp_all add: nat_less_iff)
  then have "(zdig 19 (nat a) < zdig 19 (nat b)) = (nat a < nat b)" by (rule zdig_less)
  moreover have "(nat a < nat b) = (a < b)" using assms by linarith
  ultimately show ?thesis by (simp only: z)
qed

lemma length_sequenceToFilename:
  "0 \<le> a \<Longrightarrow> a < 2 ^ 63 \<Longrightarrow> length (sequenceToFilename a) = 19"
  by (subst sequenceToFilename_zdig) simp_all

section \<open>The directory and the buffered writer\<close>

lemma set_ReadDir [simp]: "set (ReadDir fs) = dom (map_of fs)"
  by (simp add: ReadDir_def dom_map_of_conv_image_fst)

lemma sorted_ReadDir [simp]: "sorted (ReadDir fs)"
  by (simp add: ReadDir_def)

lemma distinct_ReadDir [simp]: "distinct (ReadDir fs)"
  by (simp add: ReadDir_def)

lemma truncate_loop_spec:
  "sorted xs \<Longrightarrow> distinct xs \<Longrightarrow> set xs \<subseteq> dom (map_of fs) \<Longrightarrow>
   fst (truncate_loop cutoff xs fs) = None \<and>
   map_of (snd (truncate_loop cutoff xs fs)) =
     (\<lambda>name. if name < cutoff \<and> name \<in> set (butlast xs) then None else map_of fs name)"
proof (induction cutoff xs fs rule: truncate_loop.induct)
  case (1 cutoff fs)
  then show ?case by simp
next
  case (2 cutoff f fs)
  then show ?case by simp
next
  case (3 cutoff f g rest fs)
  show ?case
  proof (cases "cutoff \<le> f")
    case True
    have "\<And>name. name \<in> set (butlast (f # g # rest)) \<Longrightarrow> \<not> name < cutoff"
    proof -
      fix name assume "name \<in> set (butlast (f # g # rest))"
      then have "name \<in> set (f # g # rest)" by (rule in_set_butlastD)
      then have "f \<le> name" using "3.prems"(1) by auto
      then show "\<not> name < cutoff" using True by simp
    qed
    then have "(\<lambda>name. if name < cutoff \<and> name \<in> set (butlast (f # g # rest)) then None
                  else map_of fs name) = map_of fs"
      by (intro ext) (auto simp del: butlast.simps)
    then show ?thesis using True by (simp del: butlast.simps)
  next
    case False
    obtain c where c: "map_of fs f = Some c" using "3.prems"(3) by auto
    then have rm: "os_Remove fs f = (None, AList.delete f fs)"
      by (simp add: os_Remove_def)
    have sub: "set (g # rest) \<subseteq> dom (map_of (AList.delete f fs))"
      using "3.prems"(2,3) by (auto simp: delete_conv')
    have ih: "fst (truncate_loop cutoff (g # rest) (AList.delete f fs)) = None \<and>
      map_of (snd (truncate_loop cutoff (g # rest) (AList.delete f fs))) =
        (\<lambda>name. if name < cutoff \<and> name \<in> set (butlast (g # rest)) then None
                 else map_of (AList.delete f fs) name)"
      using "3.IH"[OF False rm[symmetric] refl] "3.prems"(1,2) sub by simp
    have lt: "f < cutoff" using False by simp
    show ?thesis
      using False rm ih lt by (auto simp: delete_conv' fun_eq_iff)
  qed
qed


lemma bufio_Write_failed:
  "werr b \<noteq> None \<Longrightarrow> bufio_Write fs b p nn = ((nn, werr b), fs, b)"
  by (subst bufio_Write.simps) auto

lemma bufio_Write_fits:
  "werr b = None \<Longrightarrow> length p \<le> defaultFileBuffer - length (buf b) \<Longrightarrow>
   bufio_Write fs b p nn = ((nn + length p, None), fs, b\<lparr>buf := buf b @ p\<rparr>)"
  by (subst bufio_Write.simps) simp

lemma bufio_Write_through:
  "werr b = None \<Longrightarrow> defaultFileBuffer - length (buf b) < length p \<Longrightarrow> buf b = [] \<Longrightarrow>
   bufio_Write fs b p nn =
     (case file_Write fs (wr b) p of
        (Some e, fs') \<Rightarrow> ((nn, Some e), fs', b\<lparr>werr := Some e\<rparr>)
      | (None, fs') \<Rightarrow> ((nn + length p, None), fs', b))"
  by (subst bufio_Write.simps)
     (simp add: bufio_Write_failed bufio_Write_fits split: prod.splits option.splits)

lemma Flush_cases:
  "Flush fs b = (e, fs', b') \<Longrightarrow>
   (e = None \<and> werr b' = None \<and> buf b' = []) \<or> (e \<noteq> None \<and> werr b' \<noteq> None)"
  by (auto simp: Flush_def split: if_splits prod.splits option.splits)

lemma bufio_Write_count:
  "bufio_Write fs b p nn = ((n, None), fs', b') \<Longrightarrow> n = nn + length p"
proof (cases "werr b = None")
  case False
  assume "bufio_Write fs b p nn = ((n, None), fs', b')"
  then show ?thesis using False by (simp add: bufio_Write_failed)
next
  case ok: True
  assume res: "bufio_Write fs b p nn = ((n, None), fs', b')"
  show ?thesis
  proof (cases "length p \<le> defaultFileBuffer - length (buf b)")
    case True
    then show ?thesis using res ok by (simp add: bufio_Write_fits)
  next
    case big: False
    show ?thesis
    proof (cases "buf b = []")
      case True
      then show ?thesis using res ok big
        by (auto simp: bufio_Write_through split: prod.splits option.splits)
    next
      case False
      define k where "k = defaultFileBuffer - length (buf b)"
      obtain e fs1 b1 where fl: "Flush fs (b\<lparr>buf := buf b @ take k p\<rparr>) = (e, fs1, b1)"
        by (cases "Flush fs (b\<lparr>buf := buf b @ take k p\<rparr>)")
      have k: "k < length p" using big by (simp add: k_def)
      have step: "bufio_Write fs1 b1 (drop k p) (nn + k) = ((n, None), fs', b')"
        using res ok big False fl by (subst (asm) bufio_Write.simps) (simp add: k_def Let_def)
      from Flush_cases[OF fl] show ?thesis
      proof
        assume a: "e = None \<and> werr b1 = None \<and> buf b1 = []"
        show ?thesis
        proof (cases "length (drop k p) \<le> defaultFileBuffer - length (buf b1)")
          case True
          then show ?thesis using step a k by (simp add: bufio_Write_fits)
        next
          case False
          then show ?thesis using step a k
            by (auto simp: bufio_Write_through split: prod.splits option.splits)
        qed
      next
        assume "e \<noteq> None \<and> werr b1 \<noteq> None"
        then show ?thesis using step by (auto simp: bufio_Write_failed)
      qed
    qed
  qed
qed

lemma write_bufs_count:
  "write_bufs fs wal bufs n0 = ((n, None), fs', wal') \<Longrightarrow> bufs \<noteq> [] \<Longrightarrow> n = length (last bufs)"
proof (induction bufs arbitrary: fs wal n0)
  case Nil
  then show ?case by simp
next
  case (Cons b bs)
  obtain k e fs1 w1 where bw: "bufio_Write fs (writer wal) b 0 = ((k, e), fs1, w1)"
    by (metis prod.collapse)
  show ?case
  proof (cases e)
    case (Some x)
    then show ?thesis using Cons.prems bw by simp
  next
    case None
    then have k: "k = length b" using bufio_Write_count[of fs "writer wal" b 0 k fs1 w1] bw by simp
    have rec: "write_bufs fs1 (wal\<lparr>writer := w1, position := position wal + int k\<rparr>) bs k
               = ((n, None), fs', wal')"
      using Cons.prems bw None by simp
    show ?thesis
    proof (cases bs)
      case Nil
      then show ?thesis using rec k by simp
    next
      case (Cons c cs)
      then show ?thesis using Cons.IH[OF rec] by simp
    qed
  qed
qed

lemma seq5: "sequenceToFilename 5 = ''0000000000000000005''"
  by code_simp




lemma Write_ex:
  "Write 16 9000 [[1, 2], [3]] ex_dir ex_wal =
     ((1, None), [(''0000000000000000005'', [0, 0, 0, 3, 1, 2, 3])], ex_wal\<lparr>position := 7\<rparr>)"
  by (simp add: Write_def ex_wal_def ex_dir_def bufio_Write_fits defaultFileBuffer_def PutUint32_def
      doSync_def Flush_def file_Write_def)

section \<open>The sequence of the writer\<close>








lemma appendSentinels_None: "fst (appendSentinels fs) = None"
  by (simp add: appendSentinels_def)




lemma seq9: "sequenceToFilename 9 = ''0000000000000000009''"
  by code_simp



section \<open>The reader: one round of Read\<close>

lemma fillBuf_Full:
  assumes "fillBuf dec fs r k = (Full bs, r1)"
  shows "bs = take k (drop (cursor (reader r)) (fst (stream_data dec fs (reader r))))"
    and "k \<le> length (drop (cursor (reader r)) (fst (stream_data dec fs (reader r))))"
    and "r1 = r\<lparr>reader := (reader r)\<lparr>cursor := cursor (reader r) + k\<rparr>, position := position r + int k\<rparr>"
  using assms
  by (auto simp: fillBuf_def Let_def min_def split: prod.splits if_splits)

lemma fillBuf_state:
  assumes "fillBuf dec fs r k = (res, r1)"
  shows "fileSequence r1 = fileSequence r" "position r \<le> position r1"
    "src (reader r1) = src (reader r)" "snappy (reader r1) = snappy (reader r)"
    "cursor (reader r) \<le> cursor (reader r1)" "fileHandle r1 = fileHandle r"
    "compressed r1 = compressed r" "fileFlags r1 = fileFlags r"
  using assms
  by (auto simp: fillBuf_def Let_def split: prod.splits if_splits)

lemma stream_data_cong:
  "src s = src s' \<Longrightarrow> snappy s = snappy s' \<Longrightarrow> stream_data dec fs s = stream_data dec fs s'"
  by (simp add: stream_data_def split: handle.splits option.splits)

lemma stream_data_cursor [simp]:
  "stream_data dec fs (s\<lparr>cursor := c\<rparr>) = stream_data dec fs s"
  by (rule stream_data_cong) simp_all

lemma after_advance_Returned [simp]: "after_advance x \<noteq> Inl (Returned b, r')"
  by (cases x rule: after_advance.cases) simp_all

lemma Read_round_returns_frame:
  assumes "Read_round dec fs wal r = Inl (Returned b, r')"
  shows "0 < length b \<and> 4 + length b \<le> cursor (reader r') \<and>
   take (length b) (drop (cursor (reader r') - length b) (fst (stream_data dec fs (reader r')))) = b \<and>
   unat (Uint32 (take 4 (drop (cursor (reader r') - length b - 4) (fst (stream_data dec fs (reader r'))))))
     = length b \<and>
   fileSequence r' = fileSequence r \<and> position r' = position r + 4 + int (length b)"
proof -
  obtain res1 r1 where f1: "fillBuf dec fs r 4 = (res1, r1)" by (cases "fillBuf dec fs r 4")
  from assms f1 obtain lenBuf where full1: "res1 = Full lenBuf"
    by (cases res1) (simp_all add: Read_round_def)
  define len where "len = unat (Uint32 lenBuf)"
  have pos: "sentinel < len"
    using assms f1 full1 by (cases "sentinel < len") (simp_all add: Read_round_def len_def)
  obtain res2 r2 where f2: "fillBuf dec fs r1 len = (res2, r2)" by (cases "fillBuf dec fs r1 len")
  have full2: "res2 = Full b" and r2: "r2 = r'"
    using assms f1 full1 pos f2
    by (cases res2; simp add: Read_round_def len_def split: if_splits)+
  let ?d = "fst (stream_data dec fs (reader r))"
  let ?c = "cursor (reader r)"
  note F1 = fillBuf_Full[OF f1[unfolded full1]]
  note F2 = fillBuf_Full[OF f2[unfolded full2 r2]]
  have d1: "stream_data dec fs (reader r1) = stream_data dec fs (reader r)"
    using F1(3) by simp
  have d2: "stream_data dec fs (reader r') = stream_data dec fs (reader r)"
    using F2(3) F1(3) by simp
  have c1: "cursor (reader r1) = ?c + 4" using F1(3) by simp
  have c2: "cursor (reader r') = ?c + 4 + len" using F2(3) F1(3) by simp
  have lb: "length b = len" using F2(1,2) by simp
  have lenBuf: "lenBuf = take 4 (drop ?c ?d)" using F1(1) .
  have b: "b = take len (drop (?c + 4) ?d)" using F2(1) d1 c1 by simp
  have st: "fileSequence r' = fileSequence r" "position r' = position r + 4 + int len"
    using F2(3) F1(3) by simp_all
  show ?thesis
    using pos lb c2 d2 b lenBuf len_def st by (simp add: sentinel_def)
qed

lemma Read_returns_frame:
  "Read fuel dec fs wal r = Some (Returned b, r') \<Longrightarrow>
   0 < length b \<and> 4 + length b \<le> cursor (reader r') \<and>
   take (length b) (drop (cursor (reader r') - length b) (fst (stream_data dec fs (reader r')))) = b \<and>
   unat (Uint32 (take 4 (drop (cursor (reader r') - length b - 4) (fst (stream_data dec fs (reader r'))))))
     = length b"
proof (induction fuel arbitrary: r)
  case 0
  then show ?case by simp
next
  case (Suc fuel)
  show ?case
  proof (cases "Read_round dec fs wal r")
    case (Inl res)
    then have "Read_round dec fs wal r = Inl (Returned b, r')" using Suc.prems by simp
    then show ?thesis using Read_round_returns_frame by blast
  next
    case (Inr r1)
    then show ?thesis using Suc by simp
  qed
qed

lemma seq0: "sequenceToFilename 0 = ''0000000000000000000''"
  by code_simp

lemma fseq5: "filenameToSequence ''0000000000000000005'' = 5"
  by (simp add: filenameToSequence_def ParseInt_def TrimSuffix_def HasSuffix_def filePart_def
      compressedSuffix_def digitVal_def)

lemma NewReader_ex: "NewReader ex_dec ex_dir None = Returned ex_reader"
  by (simp add: NewReader_def Reader_advance_def ReadDir_def ex_dir_def seq0 fseq5
      Reader_open_def openFile_def os_OpenFile_def filename_def seq5 ex_reader_def)

lemma NewReader_ex_rolled: "NewReader ex_dec ex_dir_rolled None = Returned ex_reader"
  by (simp add: NewReader_def Reader_advance_def ReadDir_def ex_dir_rolled_def seq0 fseq5
      Reader_open_def openFile_def os_OpenFile_def filename_def seq5 ex_reader_def)

lemma Uint32_12: "unat (Uint32 [0, 0, 0, 12]) = 12"
  by (simp add: Uint32_def)

lemma Uint32_0: "Uint32 [0, 0, 0, 0] = 0"
  by (simp add: Uint32_def)

lemma Read_ex_rolled:
  "Read 1 ex_dec ex_dir_rolled ex_wal ex_reader = Some (Returned ex_payload12, ex_reader_at 16)"
  by (simp add: Read_round_def fillBuf_def stream_data_def ex_reader_def ex_reader_at_def
      ex_dir_rolled_def ex_dec_def ex_payload12_def Uint32_12 sentinel_def)

lemma fillBuf_ex_sentinel:
  "fillBuf ex_dec ex_dir_rolled (ex_reader_at 16) 4 = (Full [0, 0, 0, 0], ex_reader_at 20)"
  by (simp add: fillBuf_def stream_data_def ex_reader_def ex_reader_at_def
      ex_dir_rolled_def ex_dec_def ex_payload12_def)

lemma Read_ex_rolled_blocked:
  "Read 1 ex_dec ex_dir_rolled ex_wal (ex_reader_at 16) = Some (Blocked, ex_reader_at 20)"
proof -
  have "Reader_advance ex_dec ex_dir_rolled (ex_reader_at 20) = (Blocked, ex_reader_at 20)"
    by (simp add: Reader_advance_def ReadDir_def ex_dir_rolled_def ex_reader_at_def ex_reader_def
        seq5 fseq5)
  then show ?thesis
    by (simp add: Read_round_def fillBuf_ex_sentinel Uint32_0 sentinel_def)
qed

section \<open>Canonical names and the advance of the reader\<close>

lemma canonicalD:
  assumes "canonical name"
  shows "0 \<le> filenameToSequence name" "filenameToSequence name < 2 ^ 63"
    "name = sequenceToFilename (filenameToSequence name) \<or>
     name = sequenceToFilename (filenameToSequence name) @ compressedSuffix"
  using assms by (simp_all add: canonical_def Let_def)

lemma canonical_sequenceToFilename:
  "0 \<le> s \<Longrightarrow> s < 2 ^ 63 \<Longrightarrow> canonical (sequenceToFilename s)"
  "0 \<le> s \<Longrightarrow> s < 2 ^ 63 \<Longrightarrow> canonical (sequenceToFilename s @ compressedSuffix)"
  by (simp_all add: canonical_def filenameToSequence_sequenceToFilename)

lemma sequenceToFilename_negative: "s < 0 \<Longrightarrow> hd (sequenceToFilename s) = CHR ''-''"
  by (simp add: sequenceToFilename_def)


text \<open>The name that \<^verbatim>\<open>Reader.advance\<close> picks belongs to a greater sequence.\<close>

lemma advance_picks_greater:
  assumes "canonical name" "c < 2 ^ 63"
      and "filenameToSequence name \<noteq> c" "sequenceToFilename c < name"
  shows "c < filenameToSequence name"
proof (rule ccontr)
  let ?s = "filenameToSequence name"
  assume "\<not> c < ?s"
  then have lt: "?s < c" using assms(3) by simp
  note C = canonicalD[OF assms(1)]
  have c0: "0 \<le> c" using lt C(1) by simp
  have less: "sequenceToFilename ?s < sequenceToFilename c"
    using sequenceToFilename_less[OF C(1,2) c0 assms(2)] lt by simp
  have len: "length (sequenceToFilename ?s) = length (sequenceToFilename c)"
    using length_sequenceToFilename[OF C(1,2)] length_sequenceToFilename[OF c0 assms(2)] by simp
  have "name < sequenceToFilename c"
  proof (rule disjE[OF C(3)])
    assume "name = sequenceToFilename ?s"
    then show ?thesis using less by simp
  next
    assume n: "name = sequenceToFilename ?s @ compressedSuffix"
    have "sequenceToFilename ?s @ compressedSuffix < sequenceToFilename c @ []"
      using len less by (rule less_append_same_length)
    then show ?thesis using n by simp
  qed
  then show False using assms(4) by simp
qed

lemma openFile_reader_canonical:
  assumes "canonical name" "map_of fs name \<noteq> None" "fileFlags r = O_RDONLY"
      and "fileSequence r = filenameToSequence name"
  shows "\<exists>h z. openFile fs r = (None, fs, r\<lparr>compressed := z, fileHandle := Opened h\<rparr>)
           \<and> map_of fs h \<noteq> None"
proof -
  note C = canonicalD[OF assms(1)]
  let ?n = "sequenceToFilename (fileSequence r)"
  show ?thesis
  proof (cases "map_of fs ?n")
    case (Some c)
    then have "openFile fs r = (None, fs, r\<lparr>compressed := False, fileHandle := Opened ?n\<rparr>)"
      by (simp add: openFile_def os_OpenFile_def filename_def)
    then show ?thesis using Some by blast
  next
    case None
    then have n: "name = ?n @ compressedSuffix"
      using C(3) assms(2,4) by auto
    then obtain c where c: "map_of fs (?n @ compressedSuffix) = Some c"
      using assms(2) by auto
    have "openFile fs r = (None, fs, r\<lparr>compressed := True, fileHandle := Opened (?n @ compressedSuffix)\<rparr>)"
      using None c assms(3) by (simp add: openFile_def os_OpenFile_def filename_def)
    then show ?thesis using c by blast
  qed
qed

lemma find_SomeD: "find P xs = Some x \<Longrightarrow> x \<in> set xs \<and> P x"
  by (induction xs) (auto split: if_splits)

lemma Reader_open_canonical:
  assumes "canonical name" "map_of fs name \<noteq> None" "fileFlags r = O_RDONLY"
      and "fileSequence r = filenameToSequence name" "position r = 0"
  shows "\<exists>h z. Reader_open dec fs r =
           (None, r\<lparr>compressed := z, fileHandle := Opened h,
                     reader := \<lparr>src = Opened h, snappy = z, cursor = 0\<rparr>\<rparr>)
           \<and> map_of fs h \<noteq> None"
proof -
  obtain h z where o: "openFile fs r = (None, fs, r\<lparr>compressed := z, fileHandle := Opened h\<rparr>)"
    and h: "map_of fs h \<noteq> None"
    using openFile_reader_canonical[OF assms(1-4)] by blast
  show ?thesis using o h assms(5) by (auto simp: Reader_open_def)
qed

lemma canonical_dirD: "canonical_dir fs \<Longrightarrow> map_of fs name \<noteq> None \<Longrightarrow> canonical name"
  by (auto simp: canonical_dir_def list_all_iff)

lemma Reader_advance_canonical:
  assumes "canonical_dir fs" "fileFlags r = O_RDONLY" "fileSequence r < 2 ^ 63"
  shows "Reader_advance dec fs r = (Blocked, r) \<or>
         (\<exists>r'. Reader_advance dec fs r = (Returned (), r') \<and> fileSequence r < fileSequence r'
            \<and> fileSequence r' < 2 ^ 63 \<and> fileFlags r' = O_RDONLY \<and> position r' = 0
            \<and> cursor (reader r') = 0 \<and> canonical (sequenceToFilename (fileSequence r')))"
proof (cases "find (\<lambda>name. filenameToSequence name \<noteq> fileSequence r
                        \<and> sequenceToFilename (fileSequence r) < name) (ReadDir fs)")
  case None
  then show ?thesis by (simp add: Reader_advance_def)
next
  case (Some name)
  then have mem: "name \<in> set (ReadDir fs)"
    and P: "filenameToSequence name \<noteq> fileSequence r" "sequenceToFilename (fileSequence r) < name"
    by (auto dest: find_SomeD)
  have ex: "map_of fs name \<noteq> None" using mem by auto
  have can: "canonical name" using canonical_dirD[OF assms(1) ex] .
  let ?r1 = "r\<lparr>position := 0, fileSequence := filenameToSequence name\<rparr>"
  obtain h z where o: "Reader_open dec fs ?r1 =
           (None, ?r1\<lparr>compressed := z, fileHandle := Opened h,
                     reader := \<lparr>src = Opened h, snappy = z, cursor = 0\<rparr>\<rparr>)"
    using Reader_open_canonical[OF can ex, of ?r1 dec] assms(2) by auto
  have gt: "fileSequence r < filenameToSequence name"
    using advance_picks_greater[OF can assms(3) P] .
  note C = canonicalD[OF can]
  have "canonical (sequenceToFilename (filenameToSequence name))"
    using canonical_sequenceToFilename(1)[OF C(1,2)] .
  then show ?thesis
    using Some o gt C(2) assms(2) by (simp add: Reader_advance_def)
qed

section \<open>Offsets never decrease\<close>

lemma Offset_le_refl [simp]: "Offset_le a a"
  by (simp add: Offset_le_def)

lemma Offset_le_less_trans: "Offset_le a b \<Longrightarrow> Offset_less b c \<Longrightarrow> Offset_less a c"
  by (auto simp: Offset_le_def Offset_less_def)

lemma Offset_le_trans: "Offset_le a b \<Longrightarrow> Offset_le b c \<Longrightarrow> Offset_le a c"
  by (auto simp: Offset_le_def Offset_less_def)

lemma fillBuf_Offset_le:
  "fillBuf dec fs r k = (res, r1) \<Longrightarrow> Offset_le (Reader_Offset r) (Reader_Offset r1)"
  using fillBuf_state(1,2)[of dec fs r k res r1]
  by (auto simp: Offset_le_def Offset_less_def Reader_Offset_def newOffset_def)

lemma after_advance_canonical:
  assumes "canonical_dir fs" "fileFlags r = O_RDONLY" "fileSequence r < 2 ^ 63"
  shows "(\<exists>r'. after_advance (Reader_advance dec fs r) = Inl (Blocked, r')
            \<and> Offset_le (Reader_Offset r) (Reader_Offset r')) \<or>
         (\<exists>r'. after_advance (Reader_advance dec fs r) = Inr r'
            \<and> Offset_less (Reader_Offset r) (Reader_Offset r')
            \<and> fileFlags r' = O_RDONLY \<and> fileSequence r' < 2 ^ 63)"
  using Reader_advance_canonical[OF assms, of dec]
  by (auto simp: Offset_less_def Reader_Offset_def newOffset_def)

text \<open>One round on a directory of canonical names.\<close>

lemma Read_round_canonical:
  assumes "canonical_dir fs" "fileFlags r = O_RDONLY" "fileSequence r < 2 ^ 63"
  shows "(\<exists>r'. Read_round dec fs wal r = Inl (Blocked, r')
            \<and> Offset_le (Reader_Offset r) (Reader_Offset r')) \<or>
         (\<exists>b r'. Read_round dec fs wal r = Inl (Returned b, r')
            \<and> Offset_less (Reader_Offset r) (Reader_Offset r')) \<or>
         (\<exists>r'. Read_round dec fs wal r = Inr r'
            \<and> Offset_le (Reader_Offset r) (Reader_Offset r')
            \<and> fileFlags r' = O_RDONLY \<and> fileSequence r' < 2 ^ 63)"
proof -
  obtain res1 r1 where f1: "fillBuf dec fs r 4 = (res1, r1)" by (cases "fillBuf dec fs r 4")
  note s1 = fillBuf_state[OF f1]
  have le1: "Offset_le (Reader_Offset r) (Reader_Offset r1)" using fillBuf_Offset_le[OF f1] .
  have inv1: "fileFlags r1 = O_RDONLY" "fileSequence r1 < 2 ^ 63" using s1 assms by simp_all
  note adv1 = after_advance_canonical[OF assms(1) inv1, of dec]
  have adv1': "(\<exists>r'. after_advance (Reader_advance dec fs r1) = Inl (Blocked, r')
            \<and> Offset_le (Reader_Offset r) (Reader_Offset r')) \<or>
         (\<exists>r'. after_advance (Reader_advance dec fs r1) = Inr r'
            \<and> Offset_le (Reader_Offset r) (Reader_Offset r')
            \<and> fileFlags r' = O_RDONLY \<and> fileSequence r' < 2 ^ 63)"
    using adv1 le1 by (meson Offset_le_trans Offset_le_less_trans Offset_le_def)
  show ?thesis
  proof (cases res1)
    case Starved
    then show ?thesis using f1 le1 by (simp add: Read_round_def)
  next
    case (Broken e)
    then have "Read_round dec fs wal r = after_advance (Reader_advance dec fs r1)"
      using f1 by (simp add: Read_round_def)
    then show ?thesis using adv1' by auto
  next
    case (Full lenBuf)
    define len where "len = unat (Uint32 lenBuf)"
    show ?thesis
    proof (cases "sentinel < len")
      case False
      then have "Read_round dec fs wal r = after_advance (Reader_advance dec fs r1)"
        using f1 Full by (simp add: Read_round_def len_def)
      then show ?thesis using adv1' by auto
    next
      case pos: True
      obtain res2 r2 where f2: "fillBuf dec fs r1 len = (res2, r2)" by (cases "fillBuf dec fs r1 len")
      note s2 = fillBuf_state[OF f2]
      have le2: "Offset_le (Reader_Offset r) (Reader_Offset r2)"
        using le1 fillBuf_Offset_le[OF f2] by (rule Offset_le_trans)
      have inv2: "fileFlags r2 = O_RDONLY" "fileSequence r2 < 2 ^ 63" using s2 inv1 by simp_all
      note adv2 = after_advance_canonical[OF assms(1) inv2, of dec]
      have adv2': "(\<exists>r'. after_advance (Reader_advance dec fs r2) = Inl (Blocked, r')
            \<and> Offset_le (Reader_Offset r) (Reader_Offset r')) \<or>
         (\<exists>r'. after_advance (Reader_advance dec fs r2) = Inr r'
            \<and> Offset_le (Reader_Offset r) (Reader_Offset r')
            \<and> fileFlags r' = O_RDONLY \<and> fileSequence r' < 2 ^ 63)"
        using adv2 le2 by (meson Offset_le_trans Offset_le_less_trans Offset_le_def)
      show ?thesis
      proof (cases res2)
        case (Full b)
        then have rr: "Read_round dec fs wal r = Inl (Returned b, r2)"
          using f1 \<open>res1 = Full lenBuf\<close> f2 pos by (simp add: Read_round_def len_def)
        from Read_round_returns_frame[OF rr]
        have "fileSequence r2 = fileSequence r" "position r < position r2" by simp_all
        then have "Offset_less (Reader_Offset r) (Reader_Offset r2)"
          by (simp add: Offset_less_def Reader_Offset_def newOffset_def)
        then show ?thesis using rr by blast
      next
        case Starved
        show ?thesis
        proof (cases "hasMovedBeyond wal (fileSequence r2)")
          case True
          then have "Read_round dec fs wal r = after_advance (Reader_advance dec fs r2)"
            using f1 \<open>res1 = Full lenBuf\<close> f2 pos Starved by (simp add: Read_round_def len_def)
          then show ?thesis using adv2' by auto
        next
          case False
          then have "Read_round dec fs wal r = Inl (Blocked, r2)"
            using f1 \<open>res1 = Full lenBuf\<close> f2 pos Starved by (simp add: Read_round_def len_def)
          then show ?thesis using le2 by blast
        qed
      next
        case (Broken e)
        then have "Read_round dec fs wal r = Inr r2"
          using f1 \<open>res1 = Full lenBuf\<close> f2 pos by (simp add: Read_round_def len_def)
        then show ?thesis using le2 inv2 by blast
      qed
    qed
  qed
qed

lemma Read_canonical:
  assumes "canonical_dir fs"
  shows "fileFlags r = O_RDONLY \<Longrightarrow> fileSequence r < 2 ^ 63 \<Longrightarrow>
         Read fuel dec fs wal r = Some (out, r') \<Longrightarrow>
         Offset_le (Reader_Offset r) (Reader_Offset r') \<and>
         (\<forall>b. out = Returned b \<longrightarrow> Offset_less (Reader_Offset r) (Reader_Offset r')) \<and>
         (\<forall>e. out \<noteq> Failed e)"
proof (induction fuel arbitrary: r)
  case 0
  then show ?case by simp
next
  case (Suc fuel)
  from Read_round_canonical[OF assms Suc.prems(1,2), of dec wal]
  consider (blocked) r1 where "Read_round dec fs wal r = Inl (Blocked, r1)"
      "Offset_le (Reader_Offset r) (Reader_Offset r1)"
    | (returned) b r1 where "Read_round dec fs wal r = Inl (Returned b, r1)"
      "Offset_less (Reader_Offset r) (Reader_Offset r1)"
    | (again) r1 where "Read_round dec fs wal r = Inr r1"
      "Offset_le (Reader_Offset r) (Reader_Offset r1)"
      "fileFlags r1 = O_RDONLY" "fileSequence r1 < 2 ^ 63"
    by blast
  then show ?case
  proof cases
    case blocked
    then show ?thesis using Suc.prems(3) by auto
  next
    case returned
    then show ?thesis using Suc.prems(3) by (auto simp: Offset_le_def)
  next
    case again
    then have "Read fuel dec fs wal r1 = Some (out, r')" using Suc.prems(3) by simp
    from Suc.IH[OF again(3,4) this] again(2) show ?thesis
      by (auto intro: Offset_le_trans Offset_le_less_trans)
  qed
qed

lemma fseq9: "filenameToSequence ''0000000000000000009'' = 9"
  by (simp add: filenameToSequence_def ParseInt_def TrimSuffix_def HasSuffix_def filePart_def
      compressedSuffix_def digitVal_def)

lemma canonical_5: "canonical ''0000000000000000005''"
  by (simp add: canonical_def fseq5 seq5)

lemma canonical_9: "canonical ''0000000000000000009''"
  by (simp add: canonical_def fseq9 seq9)

lemma canonical_dir_ex_rolled: "canonical_dir ex_dir_rolled"
  by (simp add: canonical_dir_def ReadDir_def ex_dir_rolled_def canonical_5)

lemma canonical_dir_ex_cut: "canonical_dir ex_dir_cut"
  by (simp add: canonical_dir_def ReadDir_def ex_dir_cut_def canonical_5 canonical_9)

lemma fillBuf_ex_cut_length:
  "fillBuf ex_dec ex_dir_cut ex_reader 4 = (Full [0, 0, 0, 12], ex_reader_at 4)"
  by (simp add: fillBuf_def stream_data_def ex_reader_def ex_reader_at_def ex_dir_cut_def ex_dec_def)

lemma fillBuf_ex_cut_payload:
  "fillBuf ex_dec ex_dir_cut (ex_reader_at 4) 12 = (Starved, ex_reader_at 7)"
  by (simp add: fillBuf_def stream_data_def ex_reader_def ex_reader_at_def ex_dir_cut_def ex_dec_def)

lemma Reader_advance_ex_cut:
  "Reader_advance ex_dec ex_dir_cut (ex_reader_at 7) = (Returned (), ex_reader9_at 0)"
  by (simp add: Reader_advance_def ReadDir_def ex_dir_cut_def ex_reader_at_def ex_reader_def
      seq5 fseq5 fseq9 Reader_open_def openFile_def os_OpenFile_def filename_def seq9
      ex_reader9_at_def)

lemma Uint32_1: "unat (Uint32 [0, 0, 0, 1]) = 1"
  by (simp add: Uint32_def)

lemma Read_ex_cut_second:
  "Read 1 ex_dec ex_dir_cut ex_wal9 (ex_reader9_at 0) = Some (Returned [7], ex_reader9_at 5)"
  by (simp add: Read_round_def fillBuf_def stream_data_def ex_reader9_at_def
      ex_dir_cut_def ex_dec_def Uint32_1 sentinel_def)



section \<open>The file that NewReader picks\<close>

lemma find_least:
  "sorted xs \<Longrightarrow> x \<in> set xs \<Longrightarrow> P x \<Longrightarrow> (\<forall>y\<in>set xs. P y \<longrightarrow> x \<le> y) \<Longrightarrow>
   find P xs = Some x"
proof (induction xs)
  case Nil
  then show ?case by simp
next
  case (Cons a xs)
  show ?case
  proof (cases "P a")
    case True
    then have "x \<le> a" using Cons.prems(4) by simp
    moreover have "a \<le> x" using Cons.prems(1,2) by auto
    ultimately show ?thesis using True by simp
  next
    case False
    then have "x \<in> set xs" using Cons.prems(2,3) by auto
    then show ?thesis using Cons False by simp
  qed
qed

lemma hd_zdig: "n < 10 ^ w \<Longrightarrow> hd (zdig (Suc w) n) = CHR ''0''"
proof (induction w arbitrary: n)
  case 0
  then show ?case by (simp add: digit_def)
next
  case (Suc w)
  have "n div 10 < 10 ^ w" using Suc.prems by (simp add: less_mult_imp_div_less mult.commute)
  then have "hd (zdig (Suc w) (n div 10)) = CHR ''0''" by (rule Suc.IH)
  moreover have "zdig (Suc w) (n div 10) \<noteq> []" by simp
  moreover have "zdig (Suc (Suc w)) n = zdig (Suc w) (n div 10) @ [digit (n mod 10)]"
    by (rule zdig.simps(2))
  ultimately show ?case by (simp only: hd_append if_False)
qed

lemma hd_sequenceToFilename:
  assumes "0 \<le> s" "s < 10 ^ 18"
  shows "hd (sequenceToFilename s) = CHR ''0''"
proof -
  have "s < 10 ^ 19" using assms(2) by simp
  then have "sequenceToFilename s = zdig (Suc 18) (nat s)"
    using sequenceToFilename_zdig[OF assms(1)] by simp
  moreover have "nat s < 10 ^ 18" using assms by (simp add: nat_less_iff)
  ultimately show ?thesis using hd_zdig[of "nat s" 18] by simp
qed

text \<open>In a directory of canonical names, a name of a smaller sequence is a smaller name.\<close>

lemma canonical_name_less:
  assumes "canonical name" "filenameToSequence name < s" "s < 2 ^ 63"
  shows "name < sequenceToFilename s"
proof -
  note C = canonicalD[OF assms(1)]
  have s0: "0 \<le> s" using C(1) assms(2) by simp
  have less: "sequenceToFilename (filenameToSequence name) < sequenceToFilename s"
    using sequenceToFilename_less[OF C(1,2) s0 assms(3)] assms(2) by simp
  have len: "length (sequenceToFilename (filenameToSequence name)) = length (sequenceToFilename s)"
    using length_sequenceToFilename[OF C(1,2)] length_sequenceToFilename[OF s0 assms(3)] by simp
  show ?thesis
  proof (rule disjE[OF C(3)])
    assume "name = sequenceToFilename (filenameToSequence name)"
    then show ?thesis using less by simp
  next
    assume n: "name = sequenceToFilename (filenameToSequence name) @ compressedSuffix"
    have "sequenceToFilename (filenameToSequence name) @ compressedSuffix < sequenceToFilename s @ []"
      using len less by (rule less_append_same_length)
    then show ?thesis using n by simp
  qed
qed

lemma canonical_name_greater:
  assumes "canonical name" "s < filenameToSequence name" "0 \<le> s"
  shows "sequenceToFilename s @ x < name"
proof -
  note C = canonicalD[OF assms(1)]
  have s2: "s < 2 ^ 63" using C(2) assms(2) by simp
  have less: "sequenceToFilename s < sequenceToFilename (filenameToSequence name)"
    using sequenceToFilename_less[OF assms(3) s2 C(1,2)] assms(2) by simp
  have len: "length (sequenceToFilename s) = length (sequenceToFilename (filenameToSequence name))"
    using length_sequenceToFilename[OF C(1,2)] length_sequenceToFilename[OF assms(3) s2] by simp
  show ?thesis
  proof (rule disjE[OF C(3)])
    assume n: "name = sequenceToFilename (filenameToSequence name)"
    have "sequenceToFilename s @ x < sequenceToFilename (filenameToSequence name) @ []"
      using len less by (rule less_append_same_length)
    then show ?thesis using n by simp
  next
    assume n: "name = sequenceToFilename (filenameToSequence name) @ compressedSuffix"
    have "sequenceToFilename s @ x < sequenceToFilename (filenameToSequence name) @ compressedSuffix"
      using len less by (rule less_append_same_length)
    then show ?thesis using n by simp
  qed
qed

lemma less_eq_append: "(xs :: string) \<le> xs @ ys"
  by (induction xs) auto

text \<open>The file that \<^verbatim>\<open>NewReader\<close> picks for the offset of an existing segment.\<close>

lemma NewReader_finds_segment:
  assumes "0 \<le> s" "s < 2 ^ 63"
      and "map_of fs (sequenceToFilename s) \<noteq> None \<or>
           (map_of fs (sequenceToFilename s @ compressedSuffix) \<noteq> None \<and> canonical_dir fs)"
  shows "\<exists>name. find (\<lambda>name. sequenceToFilename s \<le> name) (ReadDir fs) = Some name \<and>
           filenameToSequence name = s \<and> canonical name \<and> map_of fs name \<noteq> None"
proof (cases "map_of fs (sequenceToFilename s) = None")
  case False
  then have "sequenceToFilename s \<in> set (ReadDir fs)" by auto
  then have "find (\<lambda>name. sequenceToFilename s \<le> name) (ReadDir fs) = Some (sequenceToFilename s)"
    by (intro find_least) simp_all
  then show ?thesis
    using False filenameToSequence_sequenceToFilename(1)[OF assms(1,2)]
      canonical_sequenceToFilename(1)[OF assms(1,2)] by simp
next
  case True
  let ?n = "sequenceToFilename s @ compressedSuffix"
  have ex: "map_of fs ?n \<noteq> None" and can: "canonical_dir fs" using True assms(3) by auto
  have mem: "?n \<in> set (ReadDir fs)" using ex by auto
  have least: "\<forall>y\<in>set (ReadDir fs). sequenceToFilename s \<le> y \<longrightarrow> ?n \<le> y"
  proof (intro ballI impI)
    fix y assume y: "y \<in> set (ReadDir fs)" and le: "sequenceToFilename s \<le> y"
    then have yex: "map_of fs y \<noteq> None" by auto
    have cy: "canonical y" using canonical_dirD[OF can yex] .
    note C = canonicalD[OF cy]
    consider "filenameToSequence y < s" | "filenameToSequence y = s" | "s < filenameToSequence y"
      by linarith
    then show "?n \<le> y"
    proof cases
      case 1
      from canonical_name_less[OF cy 1 assms(2)] le show ?thesis by simp
    next
      case 2
      then have "y = ?n" using C(3) yex True by auto
      then show ?thesis by simp
    next
      case 3
      from canonical_name_greater[OF cy 3 assms(1), of compressedSuffix] show ?thesis by simp
    qed
  qed
  have "find (\<lambda>name. sequenceToFilename s \<le> name) (ReadDir fs) = Some ?n"
    using mem least by (intro find_least) (simp_all add: less_eq_append)
  then show ?thesis
    using ex filenameToSequence_sequenceToFilename(2)[OF assms(1,2)]
      canonical_sequenceToFilename(2)[OF assms(1,2)] by simp
qed

section \<open>NewReader beyond the end of a segment\<close>

lemma Reader_open_past_end:
  assumes "fileFlags r = O_RDONLY"
      and "(map_of fs (sequenceToFilename (fileSequence r)) = Some c \<and> d = (c, None)) \<or>
           (map_of fs (sequenceToFilename (fileSequence r)) = None \<and>
            map_of fs (sequenceToFilename (fileSequence r) @ compressedSuffix) = Some c \<and> d = dec c)"
      and "int (length (fst d)) < position r"
  shows "fst (Reader_open dec fs r) = Some (case snd d of None \<Rightarrow> EOF | Some x \<Rightarrow> x)"
proof -
  let ?n = "sequenceToFilename (fileSequence r)"
  have pos: "0 < position r" "\<not> nat (position r) \<le> length (fst d)" using assms(3) by auto
  from assms(2) show ?thesis
  proof
    assume a: "map_of fs ?n = Some c \<and> d = (c, None)"
    then have o: "openFile fs r = (None, fs, r\<lparr>compressed := False, fileHandle := Opened ?n\<rparr>)"
      by (simp add: openFile_def os_OpenFile_def filename_def)
    have sd: "stream_data dec fs \<lparr>src = Opened ?n, snappy = False, cursor = 0\<rparr> = d"
      using a by (simp add: stream_data_def)
    show ?thesis
      using o pos sd by (cases d) (simp add: Reader_open_def CopyN_Discard_def)
  next
    assume a: "map_of fs ?n = None \<and> map_of fs (?n @ compressedSuffix) = Some c \<and> d = dec c"
    then have o: "openFile fs r =
        (None, fs, r\<lparr>compressed := True, fileHandle := Opened (?n @ compressedSuffix)\<rparr>)"
      using assms(1) by (simp add: openFile_def os_OpenFile_def filename_def)
    have sd: "stream_data dec fs \<lparr>src = Opened (?n @ compressedSuffix), snappy = True, cursor = 0\<rparr> = d"
      using a by (simp add: stream_data_def)
    show ?thesis
      using o pos sd by (cases d) (simp add: Reader_open_def CopyN_Discard_def)
  qed
qed

lemma eval_legacy_sequences:
  "sequenceToFilename 1000000000000000000 = ''1000000000000000000''"
  "sequenceToFilename 1000000000000000 = ''0001000000000000000''"
proof -
  have r: "replicate 3 (CHR ''0'') = ''000''" by (simp add: numeral_3_eq_3)
  show "sequenceToFilename 1000000000000000000 = ''1000000000000000000''"
    by (simp add: sequenceToFilename_def zeroPad_def decimal.simps digit_def)
  show "sequenceToFilename 1000000000000000 = ''0001000000000000000''"
    by (simp add: sequenceToFilename_def zeroPad_def decimal.simps digit_def r)
qed

lemma eval_legacy_names:
  "quot 1000000000000000000 1000 = 1000000000000000"
  "filenameToSequence ''1000000000000000000'' = 1000000000000000000"
  "filenameToSequence ''0000000000000000000'' = 0"
  "filenameToSequence ''0000000000000000005-'' = 0"
  "filenameToSequence ''0000000000000000005.snappy'' = 5"
  by (simp_all add: sequenceToFilename_def zeroPad_def decimal.simps digit_def quot_def
      filenameToSequence_def ParseInt_def TrimSuffix_def HasSuffix_def filePart_def
      compressedSuffix_def digitVal_def)

lemma NewReader_ex_legacy:
  "NewReader ex_dec ex_dir_legacy (Some (newOffset 1000000000000000000 100)) =
     Returned (ex_reader_on ''1000000000000000000'' 1000000000000000000)"
  by (simp add: NewReader_def NewReader_seek_def newOffset_def eval_legacy_names eval_legacy_sequences ReadDir_def
      ex_dir_legacy_def Reader_open_def openFile_def os_OpenFile_def filename_def ex_reader_on_def)

lemma NewReader_ex_foreign:
  "NewReader ex_dec ex_dir_foreign (Some (newOffset 5 100)) =
     Returned (ex_reader_on ''0000000000000000000'' 0)"
  by (simp add: NewReader_def NewReader_seek_def newOffset_def eval_legacy_names seq5 seq0
      ReadDir_def ex_dir_foreign_def Reader_open_def openFile_def os_OpenFile_def filename_def
      ex_reader_on_def)

section \<open>Directories with a foreign file\<close>

lemma seq10: "sequenceToFilename 10 = ''0000000000000000010''"
  by code_simp

lemma eval_stray_names:
  "filenameToSequence ''0000000000000000010'' = 10"
  "filenameToSequence ''9'' = 9"
  "filenameToSequence ''0000000000000000005x'' = 0"
  by (simp_all add: sequenceToFilename_def zeroPad_def decimal.simps digit_def
      filenameToSequence_def ParseInt_def TrimSuffix_def HasSuffix_def filePart_def
      compressedSuffix_def digitVal_def)

lemma ReadDir_ex_stray9:
  "ReadDir ex_dir_stray9 = [''0000000000000000009'', ''0000000000000000010'', ''9'']"
  by (simp add: ReadDir_def ex_dir_stray9_def)


lemma NewReader_ex_stray9:
  "NewReader ex_dec ex_dir_stray9 (Some (newOffset 10 0)) =
     Returned (ex_reader_on ''0000000000000000010'' 10)"
  by (simp add: NewReader_def NewReader_seek_def newOffset_def eval_stray_names seq10 ReadDir_ex_stray9 [unfolded ex_dir_stray9_def]
      Reader_open_def openFile_def os_OpenFile_def filename_def ex_reader_on_def ex_dir_stray9_def
      Let_def)

lemma Read_round_ex_stray9:
  "Read_round ex_dec ex_dir_stray9 ex_wal (ex_reader_on ''0000000000000000010'' 10) =
     Inr (ex_reader9_at 0)"
proof -
  have f: "fillBuf ex_dec ex_dir_stray9 (ex_reader_on ''0000000000000000010'' 10) 4 =
      (Full [0, 0, 0, 0],
       (ex_reader_on ''0000000000000000010'' 10)\<lparr>reader :=
          \<lparr>src = Opened ''0000000000000000010'', snappy = False, cursor = 4\<rparr>, position := 4\<rparr>)"
    by (simp add: fillBuf_def stream_data_def ex_reader_on_def ex_dir_stray9_def ex_dec_def)
  have a: "Reader_advance ex_dec ex_dir_stray9
      ((ex_reader_on ''0000000000000000010'' 10)\<lparr>reader :=
          \<lparr>src = Opened ''0000000000000000010'', snappy = False, cursor = 4\<rparr>, position := 4\<rparr>)
      = (Returned (), ex_reader9_at 0)"
    by (simp add: Reader_advance_def ReadDir_ex_stray9 [unfolded ex_dir_stray9_def] ex_reader_on_def eval_stray_names seq10 fseq9
        Reader_open_def openFile_def os_OpenFile_def filename_def seq9 ex_dir_stray9_def
        ex_reader9_at_def)
  show ?thesis by (simp add: Read_round_def f Uint32_0 sentinel_def a)
qed

lemma Read_ex_stray9_second:
  "Read 1 ex_dec ex_dir_stray9 ex_wal (ex_reader9_at 0) = Some (Returned [7], ex_reader9_at 5)"
  by (simp add: Read_round_def fillBuf_def stream_data_def ex_reader9_at_def
      ex_dir_stray9_def ex_dec_def Uint32_1 sentinel_def)

lemma Read_ex_stray9:
  "Read 2 ex_dec ex_dir_stray9 ex_wal (ex_reader_on ''0000000000000000010'' 10) =
     Some (Returned [7], ex_reader9_at 5)"
proof -
  have "Read 2 ex_dec ex_dir_stray9 ex_wal (ex_reader_on ''0000000000000000010'' 10) =
        (case Read_round ex_dec ex_dir_stray9 ex_wal (ex_reader_on ''0000000000000000010'' 10) of
           Inl res \<Rightarrow> Some res | Inr r1 \<Rightarrow> Read (Suc 0) ex_dec ex_dir_stray9 ex_wal r1)"
    by (simp add: numeral_2_eq_2)
  then show ?thesis using Read_round_ex_stray9 Read_ex_stray9_second by simp
qed







section \<open>Frames\<close>

lemma Uint32_PutUint32: "Uint32 (PutUint32 w) = w"
  unfolding Uint32_def PutUint32_def
  apply (rule bit_word_eqI)
  apply (auto simp: bit_simps)
  subgoal for n by (cases "24 \<le> n") auto
  done

lemma length_PutUint32 [simp]: "length (PutUint32 w) = 4"
  by (simp add: PutUint32_def)

lemma unat_Uint32_PutUint32:
  "n < 2 ^ 32 \<Longrightarrow> unat (Uint32 (PutUint32 (of_nat n))) = n"
  by (simp add: Uint32_PutUint32 unat_of_nat)

lemma fillBuf_available:
  assumes "drop (cursor (reader r)) (fst (stream_data dec fs (reader r))) = b @ rest"
  shows "fillBuf dec fs r (length b) =
           (Full b, r\<lparr>reader := (reader r)\<lparr>cursor := cursor (reader r) + length b\<rparr>,
                      position := position r + int (length b)\<rparr>)"
proof -
  obtain d e where sd: "stream_data dec fs (reader r) = (d, e)"
    by (cases "stream_data dec fs (reader r)")
  have a: "drop (cursor (reader r)) d = b @ rest" using assms sd by simp
  then have "length (drop (cursor (reader r)) d) = length (b @ rest)" by simp
  then have l: "length b \<le> length d - cursor (reader r)" by simp
  have t: "take (length b) (drop (cursor (reader r)) d) = b" using a by simp
  show ?thesis using sd l t by (simp add: fillBuf_def Let_def min_def)
qed

lemma Read_round_frame:
  assumes "drop (cursor (reader r)) (fst (stream_data dec fs (reader r))) =
             PutUint32 (of_nat (length b)) @ b @ rest"
      and "0 < length b" "length b < 2 ^ 32"
  shows "Read_round dec fs wal r =
           Inl (Returned b,
                r\<lparr>reader := (reader r)\<lparr>cursor := cursor (reader r) + (4 + length b)\<rparr>,
                  position := position r + int (4 + length b)\<rparr>)"
proof -
  let ?l = "PutUint32 (of_nat (length b))"
  let ?r1 = "r\<lparr>reader := (reader r)\<lparr>cursor := cursor (reader r) + 4\<rparr>,
                position := position r + 4\<rparr>"
  have f1: "fillBuf dec fs r 4 = (Full ?l, ?r1)"
    using fillBuf_available[of r dec fs ?l "b @ rest"] assms(1) by simp
  have d: "drop (cursor (reader ?r1)) (fst (stream_data dec fs (reader ?r1))) = b @ rest"
  proof -
    have "drop (cursor (reader r) + 4) (fst (stream_data dec fs (reader r))) =
          drop 4 (drop (cursor (reader r)) (fst (stream_data dec fs (reader r))))"
      by (simp add: add.commute)
    then show ?thesis using assms(1) by simp
  qed
  have f2: "fillBuf dec fs ?r1 (length b) =
      (Full b, r\<lparr>reader := (reader r)\<lparr>cursor := cursor (reader r) + (4 + length b)\<rparr>,
                  position := position r + int (4 + length b)\<rparr>)"
    using fillBuf_available[OF d] by (simp add: add.assoc)
  show ?thesis
    using f1 f2 assms(2,3) by (simp add: Read_round_def unat_Uint32_PutUint32 sentinel_def)
qed

section \<open>A reader for an offset beyond the segments\<close>

lemma find_None_all: "(\<And>x. x \<in> set xs \<Longrightarrow> \<not> P x) \<Longrightarrow> find P xs = None"
  by (simp add: find_None_iff)

lemma find_cong_set: "(\<And>x. x \<in> set xs \<Longrightarrow> P x = Q x) \<Longrightarrow> find P xs = find Q xs"
  by (induction xs) auto

lemma NewReader_seek_nothing:
  assumes "0 \<le> FileSequence off" "FileSequence off < 10 ^ 18"
      and "\<And>name. name \<in> set (ReadDir fs) \<Longrightarrow> name < sequenceToFilename (FileSequence off)"
  shows "NewReader_seek dec fs r off = Inr r"
proof -
  have hd0: "hd (sequenceToFilename (FileSequence off)) = CHR ''0''"
    using hd_sequenceToFilename[OF assms(1,2)] .
  have "find (\<lambda>name. sequenceToFilename (FileSequence off) \<le> name) (ReadDir fs) = None"
    using assms(3) by (intro find_None_all) (simp add: not_le)
  then show ?thesis using hd0 by (simp add: NewReader_seek_def)
qed

lemma advance_from_zero_canonical:
  assumes "canonical_dir fs"
  shows "find (\<lambda>name. filenameToSequence name \<noteq> 0 \<and> sequenceToFilename 0 < name) (ReadDir fs)
         = find (\<lambda>name. filenameToSequence name \<noteq> 0) (ReadDir fs)"
proof (rule find_cong_set)
  fix name assume "name \<in> set (ReadDir fs)"
  then have c: "canonical name" using assms by (auto simp: canonical_dir_def list_all_iff)
  show "(filenameToSequence name \<noteq> 0 \<and> sequenceToFilename 0 < name) =
        (filenameToSequence name \<noteq> 0)"
  proof (cases "filenameToSequence name = 0")
    case True
    then show ?thesis by simp
  next
    case False
    then have "0 < filenameToSequence name" using canonicalD(1)[OF c] by simp
    from canonical_name_greater[OF c this, of "[]"] show ?thesis using False by simp
  qed
qed

lemma seq7: "sequenceToFilename 7 = ''0000000000000000007''"
  by code_simp

lemma ReadDir_ex_rolled: "ReadDir ex_dir_rolled = [''0000000000000000005'']"
  by (simp add: ReadDir_def ex_dir_rolled_def)

lemma NewReader_ex_future:
  "NewReader ex_dec ex_dir_rolled (Some (newOffset 7 0)) = Returned ex_reader"
  by (simp add: NewReader_def NewReader_seek_def newOffset_def seq7
      ReadDir_def Reader_advance_def ex_dir_rolled_def seq0 fseq5
      Reader_open_def openFile_def os_OpenFile_def filename_def seq5 ex_reader_def Let_def)

lemma NewReader_ex_empty: "NewReader ex_dec [] (Some (newOffset 7 0)) = Blocked"
  by (simp add: NewReader_def NewReader_seek_def newOffset_def seq7 ReadDir_def
      Reader_advance_def Let_def)

section \<open>The claims\<close>




text \<open>
  Claim C4. \<^verbatim>\<open>TruncateBefore\<close> returns no error and removes exactly the files that are listed
  before the last file of the sorted listing and whose name is below the name of the
  offset's sequence. The file named like the cutoff stays, the last file of the listing
  stays, and a directory of at most one file is left as it is.
\<close>

theorem TruncateBefore_removes_below_cutoff:
  "fst (TruncateBefore off fs) = None \<and>
   map_of (snd (TruncateBefore off fs)) =
     (\<lambda>name. if name < sequenceToFilename (FileSequence off) \<and> name \<in> set (butlast (ReadDir fs))
              then None else map_of fs name) \<and>
   map_of (snd (TruncateBefore off fs)) (sequenceToFilename (FileSequence off))
     = map_of fs (sequenceToFilename (FileSequence off)) \<and>
   map_of (snd (TruncateBefore off fs)) (last (ReadDir fs)) = map_of fs (last (ReadDir fs)) \<and>
   (length (ReadDir fs) \<le> 1 \<longrightarrow> map_of (snd (TruncateBefore off fs)) = map_of fs)"
proof -
  let ?c = "sequenceToFilename (FileSequence off)"
  have spec: "fst (truncate_loop ?c (ReadDir fs) fs) = None \<and>
     map_of (snd (truncate_loop ?c (ReadDir fs) fs)) =
       (\<lambda>name. if name < ?c \<and> name \<in> set (butlast (ReadDir fs)) then None else map_of fs name)"
    by (rule truncate_loop_spec) simp_all
  have last: "last (ReadDir fs) \<notin> set (butlast (ReadDir fs))"
  proof (cases "ReadDir fs = []")
    case True
    then show ?thesis by simp
  next
    case False
    then have "distinct (butlast (ReadDir fs) @ [last (ReadDir fs)])" by simp
    then show ?thesis by (simp only: distinct_append) auto
  qed
  have short: "length (ReadDir fs) \<le> 1 \<Longrightarrow> butlast (ReadDir fs) = []"
    by (cases "ReadDir fs") auto
  show ?thesis
    unfolding TruncateBefore_def using spec last short by (auto simp: fun_eq_iff)
qed

theorem TruncateBefore_removes_below_cutoff_witness:
  "length (ReadDir ex_dir) \<le> 1 \<and> map_of (snd (TruncateBefore (newOffset 9 0) ex_dir)) = map_of ex_dir"
proof -
  have h: "length (ReadDir ex_dir) \<le> 1" by (simp add: ReadDir_def ex_dir_def)
  with TruncateBefore_removes_below_cutoff[of "newOffset 9 0" ex_dir] show ?thesis by blast
qed

text \<open>
  Claim C5, as the code has it. On a directory of canonical names a call of \<^verbatim>\<open>Read\<close>
  that returns a record leaves the pair of sequence and position of the reader strictly
  greater, in the lexicographic order, than it found it.
\<close>

theorem Read_offsets_increase:
  assumes "canonical_dir fs" "fileFlags r = O_RDONLY" "fileSequence r < 2 ^ 63"
      and "Read fuel dec fs wal r = Some (Returned b, r')"
  shows "Offset_less (Reader_Offset r) (Reader_Offset r')"
  using Read_canonical[OF assms] by simp

theorem Read_offsets_increase_witness:
  "canonical_dir ex_dir_cut \<and> fileFlags ex_reader = O_RDONLY \<and> fileSequence ex_reader < 2 ^ 63 \<and>
   Read 2 ex_dec ex_dir_cut ex_wal9 ex_reader = Some (Returned [7], ex_reader9_at 5) \<and>
   Reader_Offset ex_reader = newOffset 5 0 \<and> Reader_Offset (ex_reader9_at 5) = newOffset 9 5 \<and>
   Offset_less (Reader_Offset ex_reader) (Reader_Offset (ex_reader9_at 5))"
proof -
  have f: "fileFlags ex_reader = O_RDONLY" "fileSequence ex_reader < 2 ^ 63"
    by (simp_all add: ex_reader_def)
  have rd: "Read 2 ex_dec ex_dir_cut ex_wal9 ex_reader = Some (Returned [7], ex_reader9_at 5)"
  proof -
    have "Read_round ex_dec ex_dir_cut ex_wal9 ex_reader = Inr (ex_reader9_at 0)"
      by (simp add: Read_round_def fillBuf_ex_cut_length Uint32_12 sentinel_def
          fillBuf_ex_cut_payload Reader_advance_ex_cut)
         (simp add: hasMovedBeyond_def ex_wal9_def ex_reader_at_def ex_reader_def)
    moreover have "Read 2 ex_dec ex_dir_cut ex_wal9 ex_reader =
        (case Read_round ex_dec ex_dir_cut ex_wal9 ex_reader of
           Inl res \<Rightarrow> Some res | Inr r1 \<Rightarrow> Read (Suc 0) ex_dec ex_dir_cut ex_wal9 r1)"
      by (simp add: numeral_2_eq_2)
    ultimately show ?thesis using Read_ex_cut_second by simp
  qed
  have o: "Reader_Offset ex_reader = newOffset 5 0" "Reader_Offset (ex_reader9_at 5) = newOffset 9 5"
    by (simp_all add: Reader_Offset_def ex_reader_def ex_reader9_at_def)
  from Read_offsets_increase[OF canonical_dir_ex_cut f rd] canonical_dir_ex_cut f rd o
  show ?thesis by simp
qed

text \<open>
  Without the condition on the names the claim fails: from segment 10 the file \<^verbatim>\<open>9\<close>,
  which sorts last and parses as sequence 9, sends the reader back to segment 9, and the
  call returns a record at a smaller offset.
\<close>

theorem Read_offset_decreases_with_foreign_file:
  "NewReader ex_dec ex_dir_stray9 (Some (newOffset 10 0)) =
     Returned (ex_reader_on ''0000000000000000010'' 10) \<and>
   Read 2 ex_dec ex_dir_stray9 ex_wal (ex_reader_on ''0000000000000000010'' 10) =
     Some (Returned [7], ex_reader9_at 5) \<and>
   Reader_Offset (ex_reader_on ''0000000000000000010'' 10) = newOffset 10 0 \<and>
   Reader_Offset (ex_reader9_at 5) = newOffset 9 5 \<and>
   \<not> Offset_le (Reader_Offset (ex_reader_on ''0000000000000000010'' 10))
               (Reader_Offset (ex_reader9_at 5))"
  using NewReader_ex_stray9 Read_ex_stray9
  by (simp add: Reader_Offset_def ex_reader_on_def ex_reader9_at_def Offset_le_def Offset_less_def
      newOffset_def)




text \<open>
  Claim C7, as the code has it. \<^verbatim>\<open>NewReader\<close> with an offset whose sequence, from 0 to
  \<open>10 ^ 18 - 1\<close>, is greater than the sequence of every file of a directory of canonical
  names does what it does with a nil offset. It does not wait for a segment at or after
  the offset: it opens the first listed file whose sequence is not 0, which is an
  earlier segment, at position 0, and the first \<^verbatim>\<open>Read\<close> returns the first record of that
  segment. Only when no such file is listed does it wait.
\<close>

theorem NewReader_future_offset_is_nil_offset:
  assumes "0 \<le> FileSequence off" "FileSequence off < 10 ^ 18" "canonical_dir fs"
      and "\<forall>name\<in>set (ReadDir fs). filenameToSequence name < FileSequence off"
  shows "NewReader dec fs (Some off) = NewReader dec fs None \<and>
         (case find (\<lambda>name. filenameToSequence name \<noteq> 0) (ReadDir fs) of
            None \<Rightarrow> NewReader dec fs (Some off) = Blocked
          | Some name \<Rightarrow>
              (\<exists>r. NewReader dec fs (Some off) = Returned r \<and>
                   fileSequence r = filenameToSequence name \<and>
                   fileSequence r < FileSequence off \<and>
                   position r = 0 \<and> cursor (reader r) = 0 \<and>
                   (\<forall>b rest wal.
                      fst (stream_data dec fs (reader r)) = PutUint32 (of_nat (length b)) @ b @ rest \<and>
                      0 < length b \<and> length b < 2 ^ 32 \<longrightarrow>
                      (\<exists>r'. Read 1 dec fs wal r = Some (Returned b, r') \<and>
                            fileSequence r' = fileSequence r))))"
proof -
  let ?r0 = "\<lparr>fileHandle = Nil, compressed = False, fileSequence = 0, position = 0,
               fileFlags = O_RDONLY, reader = \<lparr>src = Nil, snappy = False, cursor = 0\<rparr>\<rparr>"
  have F63: "FileSequence off < 2 ^ 63" using assms(2) by simp
  have below: "name < sequenceToFilename (FileSequence off)" if "name \<in> set (ReadDir fs)" for name
  proof -
    have c: "canonical name" using that assms(3) by (auto simp: canonical_dir_def list_all_iff)
    show ?thesis using canonical_name_less[OF c _ F63] assms(4) that by blast
  qed
  have seek: "NewReader_seek dec fs ?r0 off = Inr ?r0"
    using NewReader_seek_nothing[OF assms(1,2) below] by blast
  have same: "NewReader dec fs (Some off) = NewReader dec fs None"
    using seek by (simp add: NewReader_def)
  have nil: "NewReader dec fs None =
      (case Reader_advance dec fs ?r0 of
         (Failed e, r2) \<Rightarrow> Failed (Errorf ''Unable to advance initially'' e)
       | (Blocked, r2) \<Rightarrow> Blocked
       | (Returned u, r2) \<Rightarrow> Returned r2)"
    by (simp add: NewReader_def)
  have fnd: "find (\<lambda>name. filenameToSequence name \<noteq> fileSequence ?r0
                        \<and> sequenceToFilename (fileSequence ?r0) < name) (ReadDir fs)
         = find (\<lambda>name. filenameToSequence name \<noteq> 0) (ReadDir fs)"
    using advance_from_zero_canonical[OF assms(3)] by simp
  show ?thesis
  proof (cases "find (\<lambda>name. filenameToSequence name \<noteq> 0) (ReadDir fs)")
    case None
    then have "Reader_advance dec fs ?r0 = (Blocked, ?r0)"
      using fnd by (simp add: Reader_advance_def)
    then show ?thesis using same nil None by simp
  next
    case (Some name)
    then have mem: "name \<in> set (ReadDir fs)" by (auto dest: find_SomeD)
    then have c: "canonical name" using assms(3) by (auto simp: canonical_dir_def list_all_iff)
    have m: "map_of fs name \<noteq> None" using mem by auto
    let ?r1 = "?r0\<lparr>position := 0, fileSequence := filenameToSequence name\<rparr>"
    from Reader_open_canonical[OF c m, of ?r1 dec]
    obtain h z where ro: "Reader_open dec fs ?r1 =
        (None, ?r1\<lparr>compressed := z, fileHandle := Opened h,
                    reader := \<lparr>src = Opened h, snappy = z, cursor = 0\<rparr>\<rparr>)"
      by auto
    let ?rr = "?r1\<lparr>compressed := z, fileHandle := Opened h,
                    reader := \<lparr>src = Opened h, snappy = z, cursor = 0\<rparr>\<rparr>"
    have adv: "Reader_advance dec fs ?r0 = (Returned (), ?rr)"
      using fnd Some ro by (simp add: Reader_advance_def)
    have ret: "NewReader dec fs (Some off) = Returned ?rr"
      using same nil adv by simp
    have lt: "fileSequence ?rr < FileSequence off" using assms(4) mem by simp
    have rd: "\<exists>r'. Read 1 dec fs wal ?rr = Some (Returned b, r') \<and> fileSequence r' = fileSequence ?rr"
      if "fst (stream_data dec fs (reader ?rr)) = PutUint32 (of_nat (length b)) @ b @ rest"
        "0 < length b" "length b < 2 ^ 32" for b rest wal
    proof -
      have "drop (cursor (reader ?rr)) (fst (stream_data dec fs (reader ?rr))) =
            PutUint32 (of_nat (length b)) @ b @ rest"
        using that(1) by simp
      from Read_round_frame[OF this that(2,3), of wal] show ?thesis by simp
    qed
    have "\<exists>r. NewReader dec fs (Some off) = Returned r \<and>
                   fileSequence r = filenameToSequence name \<and>
                   fileSequence r < FileSequence off \<and>
                   position r = 0 \<and> cursor (reader r) = 0 \<and>
                   (\<forall>b rest wal.
                      fst (stream_data dec fs (reader r)) = PutUint32 (of_nat (length b)) @ b @ rest \<and>
                      0 < length b \<and> length b < 2 ^ 32 \<longrightarrow>
                      (\<exists>r'. Read 1 dec fs wal r = Some (Returned b, r') \<and>
                            fileSequence r' = fileSequence r))"
      apply (rule exI[of _ ?rr])
      using ret lt rd by simp
    then show ?thesis using same Some by simp
  qed
qed

theorem NewReader_future_offset_is_nil_offset_witness:
  "0 \<le> FileSequence (newOffset 7 0) \<and> FileSequence (newOffset 7 0) < 10 ^ 18 \<and>
   canonical_dir ex_dir_rolled \<and> canonical_dir [] \<and>
   ReadDir ex_dir_rolled = [''0000000000000000005''] \<and> ReadDir [] = [] \<and>
   filenameToSequence ''0000000000000000005'' < FileSequence (newOffset 7 0) \<and>
   NewReader ex_dec ex_dir_rolled (Some (newOffset 7 0)) = NewReader ex_dec ex_dir_rolled None \<and>
   NewReader ex_dec ex_dir_rolled None = Returned ex_reader \<and>
   fst (stream_data ex_dec ex_dir_rolled (reader ex_reader)) =
     PutUint32 (of_nat (length ex_payload12)) @ ex_payload12 @ [0, 0, 0, 0] \<and>
   Read 1 ex_dec ex_dir_rolled ex_wal ex_reader = Some (Returned ex_payload12, ex_reader_at 16) \<and>
   NewReader ex_dec [] (Some (newOffset 7 0)) = Blocked"
proof -
  have a: "0 \<le> FileSequence (newOffset 7 0)" "FileSequence (newOffset 7 0) < 10 ^ 18"
    by (simp_all add: newOffset_def)
  have l: "filenameToSequence ''0000000000000000005'' < FileSequence (newOffset 7 0)"
    by (simp add: fseq5 newOffset_def)
  have b: "\<forall>name\<in>set (ReadDir ex_dir_rolled). filenameToSequence name < FileSequence (newOffset 7 0)"
    using l by (simp add: ReadDir_ex_rolled)
  have e: "canonical_dir []" "ReadDir [] = []" by (simp_all add: canonical_dir_def ReadDir_def)
  have be: "\<forall>name\<in>set (ReadDir []). filenameToSequence name < FileSequence (newOffset 7 0)"
    by (simp add: ReadDir_def)
  note t = NewReader_future_offset_is_nil_offset[OF a canonical_dir_ex_rolled b, of ex_dec]
  note t' = NewReader_future_offset_is_nil_offset[OF a e(1) be, of ex_dec]
  have same: "NewReader ex_dec ex_dir_rolled (Some (newOffset 7 0)) = NewReader ex_dec ex_dir_rolled None"
    using t by simp
  have sd: "fst (stream_data ex_dec ex_dir_rolled (reader ex_reader)) =
     PutUint32 (of_nat (length ex_payload12)) @ ex_payload12 @ [0, 0, 0, 0]"
    by (simp add: stream_data_def ex_reader_def ex_dir_rolled_def ex_dec_def ex_payload12_def
        PutUint32_def)
  have f: "find (\<lambda>name. filenameToSequence name \<noteq> 0) (ReadDir ex_dir_rolled) =
      Some ''0000000000000000005''"
    by (simp add: ReadDir_ex_rolled fseq5)
  have len: "0 < length ex_payload12 \<and> length ex_payload12 < 2 ^ 32" by (simp add: ex_payload12_def)
  from t[unfolded f] same NewReader_ex_rolled
  have "\<forall>b rest wal.
      fst (stream_data ex_dec ex_dir_rolled (reader ex_reader)) = PutUint32 (of_nat (length b)) @ b @ rest \<and>
      0 < length b \<and> length b < 2 ^ 32 \<longrightarrow>
      (\<exists>r'. Read 1 ex_dec ex_dir_rolled wal ex_reader = Some (Returned b, r') \<and>
            fileSequence r' = fileSequence ex_reader)"
    by auto
  then have "\<exists>r'. Read 1 ex_dec ex_dir_rolled ex_wal ex_reader = Some (Returned ex_payload12, r')"
    using sd len by blast
  then have rd: "Read 1 ex_dec ex_dir_rolled ex_wal ex_reader =
      Some (Returned ex_payload12, ex_reader_at 16)"
    using Read_ex_rolled by simp
  have bl: "NewReader ex_dec [] (Some (newOffset 7 0)) = Blocked"
    using t'[THEN conjunct2] by (simp add: ReadDir_def)
  show ?thesis
    using a canonical_dir_ex_rolled e ReadDir_ex_rolled l same NewReader_ex_rolled sd rd bl by simp
qed

text \<open>
  The claim as it stands fails. With segment 5 in the directory and the offset
  \<open>(7, 0)\<close>, \<^verbatim>\<open>NewReader\<close> does not wait for a segment 7 or later: it returns a reader on
  segment 5, and the first \<^verbatim>\<open>Read\<close> returns the record of that earlier segment.
\<close>

theorem NewReader_future_offset_reads_earlier_record:
  "ReadDir ex_dir_rolled = [''0000000000000000005''] \<and>
   filenameToSequence ''0000000000000000005'' = 5 \<and>
   FileSequence (newOffset 7 0) = 7 \<and>
   NewReader ex_dec ex_dir_rolled (Some (newOffset 7 0)) = Returned ex_reader \<and>
   fileSequence ex_reader = 5 \<and> position ex_reader = 0 \<and>
   Read 1 ex_dec ex_dir_rolled ex_wal ex_reader = Some (Returned ex_payload12, ex_reader_at 16)"
  using ReadDir_ex_rolled fseq5 NewReader_ex_future Read_ex_rolled
  by (simp add: newOffset_def ex_reader_def)

text \<open>
  Claim C8. A successful call of \<^verbatim>\<open>Write\<close> whose buffers hold at least one byte returns as
  \<open>n\<close> the length of the last buffer, not the size of the frame.
\<close>

theorem Write_returns_length_of_last_buffer:
  assumes "Write maxSegmentSize now bufs fs wal = ((n, None), fs', wal')"
      and "0 < sum_list (map length bufs)"
  shows "n = length (last bufs)"
proof -
  have ne: "bufs \<noteq> []" using assms(2) by auto
  obtain k e fs1 w1 where bw:
    "bufio_Write fs (writer wal) (PutUint32 (of_nat (sum_list (map length bufs)))) 0 = ((k, e), fs1, w1)"
    by (metis prod.collapse)
  have nz: "sum_list (map length bufs) \<noteq> 0" using assms(2) by linarith
  have e: "e = None" using assms(1) bw nz by (cases e) (simp_all add: Write_def del: sum_list_eq_0_iff)
  obtain k2 e2 fs2 wal2 where wb:
    "write_bufs fs1 (wal\<lparr>writer := w1, position := position wal + int k\<rparr>) bufs k = ((k2, e2), fs2, wal2)"
    by (metis prod.collapse)
  have e2: "e2 = None" using assms(1) bw e wb nz by (cases e2) (simp_all add: Write_def del: sum_list_eq_0_iff)
  have k2: "k2 = length (last bufs)" using write_bufs_count[OF wb[unfolded e2] ne] .
  have "n = k2"
    using assms(1) bw e wb e2 nz
    by (auto simp: Write_def simp del: sum_list_eq_0_iff split: if_splits prod.splits option.splits)
  then show ?thesis using k2 by simp
qed

theorem Write_returns_length_of_last_buffer_witness:
  "Write 16 9000 [[1, 2], [3]] ex_dir ex_wal =
     ((1, None), [(''0000000000000000005'', [0, 0, 0, 3, 1, 2, 3])], ex_wal\<lparr>position := 7\<rparr>)
   \<and> 0 < sum_list (map length [[1, 2], [3 :: byte]])
   \<and> (1 :: nat) = length (last [[1, 2], [3 :: byte]])"
proof -
  have h2: "0 < sum_list (map length [[1, 2], [3 :: byte]])" by simp
  from Write_returns_length_of_last_buffer[OF Write_ex h2] Write_ex h2 show ?thesis by simp
qed

text \<open>
  Claim C9. A call of \<^verbatim>\<open>Read\<close> that returns a record returns a buffer of at least one
  byte: the bytes that the reader took last from its stream, preceded there by four
  bytes that are the big-endian length of the buffer. A round that reads a length of
  zero goes on to \<^verbatim>\<open>advance\<close> and does not return a record.
\<close>

theorem Read_never_returns_an_empty_record:
  "(Read fuel dec fs wal r = Some (Returned b, r') \<longrightarrow>
      0 < length b \<and> 4 + length b \<le> cursor (reader r') \<and>
      take (length b) (drop (cursor (reader r') - length b) (fst (stream_data dec fs (reader r')))) = b \<and>
      unat (Uint32 (take 4 (drop (cursor (reader r') - length b - 4)
                                 (fst (stream_data dec fs (reader r')))))) = length b) \<and>
   (fillBuf dec fs r 4 = (Full lenBuf, r1) \<and> Uint32 lenBuf = 0 \<longrightarrow>
      Read_round dec fs wal r = after_advance (Reader_advance dec fs r1) \<and>
      Read_round dec fs wal r \<noteq> Inl (Returned b, r'))"
proof (rule conjI)
  show "Read fuel dec fs wal r = Some (Returned b, r') \<longrightarrow>
      0 < length b \<and> 4 + length b \<le> cursor (reader r') \<and>
      take (length b) (drop (cursor (reader r') - length b) (fst (stream_data dec fs (reader r')))) = b \<and>
      unat (Uint32 (take 4 (drop (cursor (reader r') - length b - 4)
                                 (fst (stream_data dec fs (reader r')))))) = length b"
    by (rule impI) (rule Read_returns_frame)
  show "fillBuf dec fs r 4 = (Full lenBuf, r1) \<and> Uint32 lenBuf = 0 \<longrightarrow>
      Read_round dec fs wal r = after_advance (Reader_advance dec fs r1) \<and>
      Read_round dec fs wal r \<noteq> Inl (Returned b, r')"
  proof (rule impI)
    assume a: "fillBuf dec fs r 4 = (Full lenBuf, r1) \<and> Uint32 lenBuf = 0"
    then have "Read_round dec fs wal r = after_advance (Reader_advance dec fs r1)"
      by (simp add: Read_round_def sentinel_def)
    then show "Read_round dec fs wal r = after_advance (Reader_advance dec fs r1) \<and>
      Read_round dec fs wal r \<noteq> Inl (Returned b, r')" by simp
  qed
qed

theorem Read_never_returns_an_empty_record_witness:
  "Read 1 ex_dec ex_dir_rolled ex_wal ex_reader = Some (Returned ex_payload12, ex_reader_at 16) \<and>
   0 < length ex_payload12 \<and>
   fillBuf ex_dec ex_dir_rolled (ex_reader_at 16) 4 = (Full [0, 0, 0, 0], ex_reader_at 20) \<and>
   Uint32 [0, 0, 0, 0] = 0 \<and>
   Read_round ex_dec ex_dir_rolled ex_wal (ex_reader_at 16)
     = after_advance (Reader_advance ex_dec ex_dir_rolled (ex_reader_at 20))"
proof -
  note t1 = Read_never_returns_an_empty_record[of 1 ex_dec ex_dir_rolled ex_wal ex_reader
          ex_payload12 "ex_reader_at 16", THEN conjunct1, rule_format, OF Read_ex_rolled]
  note t2 = Read_never_returns_an_empty_record[of 1 ex_dec ex_dir_rolled ex_wal "ex_reader_at 16"
          ex_payload12 "ex_reader_at 16" "[0, 0, 0, 0]" "ex_reader_at 20", THEN conjunct2,
          rule_format, OF conjI[OF fillBuf_ex_sentinel Uint32_0]]
  show ?thesis
    using t1 t2 Read_ex_rolled fillBuf_ex_sentinel Uint32_0 by simp
qed

text \<open>
  Claim C10, as the code has it. \<^verbatim>\<open>NewReader\<close> with an offset whose sequence, from 0 to
  \<open>10 ^ 18 - 1\<close>, is that of an existing segment (raw, or compressed in a directory of
  canonical names) and whose position is beyond the logical bytes of that segment fails
  with the error of the skipping read: end of file, or the error of the decoder.
\<close>

theorem NewReader_fails_past_end_of_segment:
  assumes "0 \<le> FileSequence off" "FileSequence off < 10 ^ 18"
      and "(map_of fs (sequenceToFilename (FileSequence off)) = Some c \<and> d = (c, None)) \<or>
           (map_of fs (sequenceToFilename (FileSequence off)) = None \<and>
            map_of fs (sequenceToFilename (FileSequence off) @ compressedSuffix) = Some c \<and>
            canonical_dir fs \<and> d = dec c)"
      and "int (length (fst d)) < Position off"
  shows "NewReader dec fs (Some off) =
           Failed (Errorf ''Unable to open existing log file''
                     (case snd d of None \<Rightarrow> EOF | Some x \<Rightarrow> x))"
proof -
  let ?F = "FileSequence off"
  have F63: "?F < 2 ^ 63" using assms(2) by simp
  have hd0: "hd (sequenceToFilename ?F) = CHR ''0''"
    using hd_sequenceToFilename[OF assms(1,2)] .
  have "map_of fs (sequenceToFilename ?F) \<noteq> None \<or>
        (map_of fs (sequenceToFilename ?F @ compressedSuffix) \<noteq> None \<and> canonical_dir fs)"
    using assms(3) by auto
  from NewReader_finds_segment[OF assms(1) F63 this]
  obtain name where f: "find (\<lambda>name. sequenceToFilename ?F \<le> name) (ReadDir fs) = Some name"
    and s: "filenameToSequence name = ?F" by blast
  let ?r0 = "\<lparr>fileHandle = Nil, compressed = False, fileSequence = 0, position = 0,
               fileFlags = O_RDONLY, reader = \<lparr>src = Nil, snappy = False, cursor = 0\<rparr>\<rparr>"
  let ?r1 = "?r0\<lparr>fileSequence := ?F, position := Position off\<rparr>"
  have "fst (Reader_open dec fs ?r1) = Some (case snd d of None \<Rightarrow> EOF | Some x \<Rightarrow> x)"
    using assms(3,4) by (intro Reader_open_past_end[where c = c]) auto
  then obtain r2 where ro: "Reader_open dec fs ?r1 = (Some (case snd d of None \<Rightarrow> EOF | Some x \<Rightarrow> x), r2)"
    by (cases "Reader_open dec fs ?r1") simp
  have "NewReader_seek dec fs ?r0 off =
          Inl (Errorf ''Unable to open existing log file'' (case snd d of None \<Rightarrow> EOF | Some x \<Rightarrow> x))"
    using hd0 f s ro by (simp add: NewReader_seek_def)
  then show ?thesis by (simp add: NewReader_def)
qed

theorem NewReader_fails_past_end_of_segment_witness:
  "0 \<le> FileSequence (newOffset 5 100) \<and> FileSequence (newOffset 5 100) < 10 ^ 18 \<and>
   map_of ex_dir_rolled (sequenceToFilename (FileSequence (newOffset 5 100)))
     = Some ([0, 0, 0, 12] @ ex_payload12 @ [0, 0, 0, 0]) \<and>
   int (length (fst ([0, 0, 0, 12] @ ex_payload12 @ [0, 0, 0, 0 :: byte], None :: error option)))
     < Position (newOffset 5 100) \<and>
   NewReader ex_dec ex_dir_rolled (Some (newOffset 5 100))
     = Failed (Errorf ''Unable to open existing log file'' EOF)"
proof -
  let ?c = "[0, 0, 0, 12] @ ex_payload12 @ [0, 0, 0, 0 :: byte]"
  have a: "0 \<le> FileSequence (newOffset 5 100)" "FileSequence (newOffset 5 100) < 10 ^ 18"
    by (simp_all add: newOffset_def)
  have m: "map_of ex_dir_rolled (sequenceToFilename (FileSequence (newOffset 5 100))) = Some ?c"
    by (simp add: newOffset_def seq5 ex_dir_rolled_def)
  have l: "int (length (fst (?c, None :: error option))) < Position (newOffset 5 100)"
    by (simp add: newOffset_def ex_payload12_def)
  note t = NewReader_fails_past_end_of_segment[of "newOffset 5 100" ex_dir_rolled ?c
      "(?c, None)" ex_dec]
  have "NewReader ex_dec ex_dir_rolled (Some (newOffset 5 100))
     = Failed (Errorf ''Unable to open existing log file''
         (case snd (?c, None :: error option) of None \<Rightarrow> EOF | Some x \<Rightarrow> x))"
    using a m l by (intro t) simp_all
  then show ?thesis using a m l by simp
qed

text \<open>
  The claim as it stands fails in two ways. A sequence from \<open>10 ^ 18\<close> on is taken for
  legacy nanoseconds and divided by 1000, so that the segment of that very sequence is
  opened at position 0. And a foreign file that sorts between a sequence and its
  compressed twin sends the reader to sequence 0.
\<close>

theorem NewReader_past_end_without_error:
  "map_of ex_dir_legacy (sequenceToFilename 1000000000000000000) = Some [] \<and>
   NewReader ex_dec ex_dir_legacy (Some (newOffset 1000000000000000000 100)) =
     Returned (ex_reader_on ''1000000000000000000'' 1000000000000000000) \<and>
   position (ex_reader_on ''1000000000000000000'' 1000000000000000000) = 0 \<and>
   map_of ex_dir_foreign (sequenceToFilename 5 @ compressedSuffix) = Some [1, 2, 3] \<and>
   NewReader ex_dec ex_dir_foreign (Some (newOffset 5 100)) =
     Returned (ex_reader_on ''0000000000000000000'' 0)"
  using NewReader_ex_legacy NewReader_ex_foreign
  by (simp add: eval_legacy_names eval_legacy_sequences ex_dir_legacy_def ex_dir_foreign_def seq5
      compressedSuffix_def
      ex_reader_on_def)

end
